theory Spec2Isabelle
  imports Main
begin

section \<open>Strings as the program sees them\<close>

text \<open>
  A JavaScript string is modelled as a \<^typ>\<open>string\<close>: one \<^typ>\<open>char\<close> per code unit,
  restricted to code units below 256. \<open>length\<close> is the JavaScript \<open>.length\<close>.
\<close>

definition is_space :: "char \<Rightarrow> bool" where
  \<comment> \<open>the class \<open>\s\<close> of a JavaScript regular expression, on code units below 256:
      tab, line feed, vertical tab, form feed, carriage return, space, no-break space\<close>
  "is_space c = (c \<in> set [CHR 0x09, CHR 0x0A, CHR 0x0B, CHR 0x0C, CHR 0x0D, CHR 0x20, CHR 0xA0])"

definition is_word_char :: "char \<Rightarrow> bool" where
  \<comment> \<open>the class \<open>\w\<close>: \<open>[A-Za-z0-9_]\<close>\<close>
  "is_word_char c =
     (let n = of_char c :: nat
      in (65 \<le> n \<and> n \<le> 90) \<or> (97 \<le> n \<and> n \<le> 122) \<or> (48 \<le> n \<and> n \<le> 57) \<or> n = 95)"

definition is_letter :: "char \<Rightarrow> bool" where
  \<comment> \<open>the class \<open>[a-zA-Z]\<close>\<close>
  "is_letter c = (let n = of_char c :: nat in (65 \<le> n \<and> n \<le> 90) \<or> (97 \<le> n \<and> n \<le> 122))"

definition startsWith :: "string \<Rightarrow> string \<Rightarrow> bool" where
  "startsWith s p = (take (length p) s = p)"

definition endsWith :: "string \<Rightarrow> string \<Rightarrow> bool" where
  "endsWith s p = (length p \<le> length s \<and> drop (length s - length p) s = p)"

fun indexOf :: "string \<Rightarrow> string \<Rightarrow> nat option" where
  \<comment> \<open>\<open>s.indexOf(t)\<close>: the first position at which \<open>t\<close> occurs; \<open>None\<close> stands for \<open>-1\<close>\<close>
  "indexOf [] t = (if t = [] then Some 0 else None)"
| "indexOf (c # cs) t =
     (if startsWith (c # cs) t then Some 0 else map_option Suc (indexOf cs t))"

definition includesStr :: "string \<Rightarrow> string \<Rightarrow> bool" where
  "includesStr s t = (indexOf s t \<noteq> None)"

definition js_slice :: "'a list \<Rightarrow> nat \<Rightarrow> nat \<Rightarrow> 'a list" where
  \<comment> \<open>\<open>xs.slice(b, e)\<close> for \<open>0 \<le> b\<close> and \<open>0 \<le> e\<close>: empty when \<open>e \<le> b\<close>, cut at the end of \<open>xs\<close>\<close>
  "js_slice xs b e = take (e - b) (drop b xs)"

definition trim :: "string \<Rightarrow> string" where
  "trim s = rev (dropWhile is_space (rev (dropWhile is_space s)))"

fun collapseWs :: "bool \<Rightarrow> string \<Rightarrow> string" where
  \<comment> \<open>\<open>s.replace(/\s+/g, ' ')\<close>; the flag says that the previous character was whitespace\<close>
  "collapseWs b [] = []"
| "collapseWs b (c # cs) =
     (if is_space c then (if b then collapseWs True cs else CHR 0x20 # collapseWs True cs)
      else c # collapseWs False cs)"

fun replaceBackslashN :: "string \<Rightarrow> string" where
  \<comment> \<open>\<open>s.replace(/\\n/g, ' ')\<close>: a backslash followed by the letter n becomes one space\<close>
  "replaceBackslashN (a # b # cs) =
     (if a = CHR 0x5C \<and> b = CHR ''n'' then CHR 0x20 # replaceBackslashN cs
      else a # replaceBackslashN (b # cs))"
| "replaceBackslashN cs = cs"

fun splitWs :: "bool \<Rightarrow> string \<Rightarrow> string list" where
  \<comment> \<open>\<open>s.split(/\s+/)\<close> is \<open>splitWs False s\<close>: the fields between maximal runs of whitespace,
      an empty field before a leading run and after a trailing one; the flag says that
      the previous character was whitespace\<close>
  "splitWs b [] = [[]]"
| "splitWs b (c # cs) =
     (if is_space c then (if b then splitWs True cs else [] # splitWs True cs)
      else (case splitWs False cs of [] \<Rightarrow> [[c]] | w # ws \<Rightarrow> (c # w) # ws))"

fun joinWith :: "string \<Rightarrow> string list \<Rightarrow> string" where
  \<comment> \<open>\<open>ws.join(sep)\<close>\<close>
  "joinWith sep [] = []"
| "joinWith sep [w] = w"
| "joinWith sep (w # v # ws) = w @ sep @ joinWith sep (v # ws)"

section \<open>Search: the keyword-in-context snippet\<close>

definition roundHalf :: "nat \<Rightarrow> nat" where
  \<comment> \<open>\<open>Math.round(maxLength / 2)\<close>: halves round up\<close>
  "roundHalf n = (n + 1) div 2"

definition plainTextOf :: "(string \<Rightarrow> string) \<Rightarrow> string \<Rightarrow> string" where
  \<comment> \<open>The text in which \<open>createKWICSnippet\<close> searches. \<open>stripMarkdown\<close> is the remark
      pipeline with the strip-markdown plugin (\<open>remove: ['heading', 'inlineCode']\<close>,
      \<open>keep: ['text']\<close>), a library outside the repository, taken as a parameter.\<close>
  "plainTextOf stripMarkdown content =
     replaceBackslashN (collapseWs False (stripMarkdown (trim content)))"

definition createKWICSnippet :: "(string \<Rightarrow> string) \<Rightarrow> string \<Rightarrow> string \<Rightarrow> nat \<Rightarrow> string" where
  "createKWICSnippet stripMarkdown content searchTerm maxLength =
     (let plainText = plainTextOf stripMarkdown content
      in case indexOf plainText searchTerm of
           None \<Rightarrow> js_slice plainText 0 maxLength
         | Some index \<Rightarrow>
             (let rawSnippet = js_slice plainText (index - roundHalf maxLength)
                                 (index + roundHalf maxLength);
                  words = splitWs False rawSnippet
              in if length words > 3
                 then joinWith '' '' (js_slice words 1 (length words - 1))
                 else joinWith '' '' words))"






section \<open>Path filtering\<close>

fun splitOn :: "char \<Rightarrow> string \<Rightarrow> string list" where
  \<comment> \<open>\<open>s.split(d)\<close> for a separator of one character\<close>
  "splitOn d [] = [[]]"
| "splitOn d (c # cs) =
     (if c = d then [] # splitOn d cs
      else (case splitOn d cs of [] \<Rightarrow> [[c]] | w # ws \<Rightarrow> (c # w) # ws))"

definition getFileExtension :: "string \<Rightarrow> string option" where
  \<comment> \<open>\<open>pathOrName.match(/\.(\w*)$/)?.[1]\<close>: only the last dot can match, and it matches
      when every character after it is a word character\<close>
  "getFileExtension pathOrName =
     (let after = takeWhile (\<lambda>c. c \<noteq> CHR ''.'') (rev pathOrName)
      in if length after < length pathOrName \<and> list_all is_word_char after
         then Some (rev after) else None)"

definition SUPPORTED_EXTENSIONS :: "string list" where
  "SUPPORTED_EXTENSIONS = [''md'', ''mdx'', ''mdoc'', ''rst'', ''txt'', ''html'', ''htm'']"

definition isSupportedFileType :: "string \<Rightarrow> bool" where
  \<comment> \<open>an absent extension and the empty extension are both falsy in \<open>!extension\<close>\<close>
  "isSupportedFileType pathOrName =
     (case getFileExtension pathOrName of
        None \<Rightarrow> True
      | Some extension \<Rightarrow> if extension = [] then True else extension \<in> set SUPPORTED_EXTENSIONS)"

text \<open>
  \<open>minimatch\<close> (the glob matcher) and \<open>new URL\<close> (the URL parser of the platform) are not
  code of the repository: both are parameters. A URL parser returns \<open>None\<close> where
  \<open>new URL\<close> throws.
\<close>

record url_parts =
  url_protocol :: string
  url_hostname :: string
  url_pathname :: string

type_synonym url_parser = "string \<Rightarrow> url_parts option"

type_synonym glob_matcher = "string \<Rightarrow> string \<Rightarrow> bool"

definition matchesGlobs :: "glob_matcher \<Rightarrow> string \<Rightarrow> string list \<Rightarrow> bool" where
  "matchesGlobs minimatch p globs = list_ex (\<lambda>g. minimatch p g) globs"

definition getUrlPath :: "url_parser \<Rightarrow> string \<Rightarrow> string option" where
  "getUrlPath newURL url = map_option url_pathname (newURL url)"

definition urlHasPath :: "url_parser \<Rightarrow> string \<Rightarrow> bool" where
  "urlHasPath newURL url =
     (case getUrlPath newURL url of None \<Rightarrow> False | Some p \<Rightarrow> p \<noteq> [] \<and> p \<noteq> ''/'')"

definition websitePath :: "url_parser \<Rightarrow> string \<Rightarrow> string" where
  \<comment> \<open>the block of \<open>shouldIncludeFileWithPath\<close> for a website source: a root URL gets a
      trailing slash\<close>
  "websitePath newURL p =
     (let isRootUrl = \<not> urlHasPath newURL p
      in if isRootUrl \<and> \<not> endsWith p ''/'' then p @ ''/'' else p)"

definition shouldIncludeFileWithPath ::
  "glob_matcher \<Rightarrow> url_parser \<Rightarrow> string \<Rightarrow> string list \<Rightarrow> string list \<Rightarrow> bool \<Rightarrow> bool" where
  "shouldIncludeFileWithPath minimatch newURL path0 includeGlobs excludeGlobs isWebsiteSource =
     (let p = (if isWebsiteSource then websitePath newURL path0 else path0)
      in if startsWith p ''.'' \<or> includesStr p ''/.'' \<or> \<not> isSupportedFileType p then False
         else if matchesGlobs minimatch p includeGlobs
              then \<not> matchesGlobs minimatch p excludeGlobs
              else False)"

definition hasDotComponent :: "string \<Rightarrow> bool" where
  \<comment> \<open>a dotfile or a dot-directory: some component of the path starts with a dot\<close>
  "hasDotComponent p = list_ex (\<lambda>w. startsWith w ''.'') (splitOn CHR ''/'' p)"

section \<open>URL helpers of the crawler\<close>

definition hasHttpPrefix :: "string \<Rightarrow> bool" where
  \<comment> \<open>\<open>/^https?:\/\/[a-zA-Z]+/.test(s)\<close>\<close>
  "hasHttpPrefix s =
     ((startsWith s ''http://'' \<and> 7 < length s \<and> is_letter (s ! 7)) \<or>
      (startsWith s ''https://'' \<and> 8 < length s \<and> is_letter (s ! 8)))"

definition stripTrailingSlashes :: "string \<Rightarrow> string" where
  \<comment> \<open>\<open>s.replace(/\/+$/, '')\<close>\<close>
  "stripTrailingSlashes s = rev (dropWhile (\<lambda>c. c = CHR ''/'') (rev s))"

definition toNormalizedUrl :: "url_parser \<Rightarrow> string \<Rightarrow> bool \<Rightarrow> string" where
  "toNormalizedUrl newURL url0 useInsecureSchema =
     (let url = (if \<not> startsWith url0 ''http://'' \<and> \<not> startsWith url0 ''https://''
                 then (if useInsecureSchema then ''http://'' else ''https://'') @ url0
                 else url0)
      in case newURL url of
           Some parsedUrl \<Rightarrow>
             stripTrailingSlashes
               (url_protocol parsedUrl @ ''//'' @ url_hostname parsedUrl @ url_pathname parsedUrl)
         | None \<Rightarrow> url)"

definition getSchema :: "string \<Rightarrow> string" where
  \<comment> \<open>\<open>hostname.split('://')[0]\<close>: the text before the first \<open>://\<close>, all of it when there is none\<close>
  "getSchema s = (case indexOf s ''://'' of None \<Rightarrow> s | Some i \<Rightarrow> take i s)"

definition getUrlHostname :: "(string \<Rightarrow> string) \<Rightarrow> string \<Rightarrow> string" where
  \<comment> \<open>\<open>removeSchema\<close> lives in a module that is not part of the sources at hand: a parameter\<close>
  "getUrlHostname removeSchema url =
     (case splitOn CHR ''/'' (removeSchema url) of [] \<Rightarrow> [] | h # _ \<Rightarrow> h)"

definition toNormalizedOrigin :: "(string \<Rightarrow> string) \<Rightarrow> string \<Rightarrow> bool \<Rightarrow> string" where
  "toNormalizedOrigin removeSchema url useInsecureSchema =
     (if hasHttpPrefix url then getSchema url @ ''://'' @ getUrlHostname removeSchema url
      else ''http'' @ (if useInsecureSchema then [] else ''s'') @ ''://'' @
           getUrlHostname removeSchema url)"

definition isHrefFromBaseUrl :: "url_parser \<Rightarrow> string \<Rightarrow> string \<Rightarrow> bool" where
  \<comment> \<open>the source returns \<open>undefined\<close> in the remaining case, which \<open>filter\<close> reads as false\<close>
  "isHrefFromBaseUrl newURL baseUrl href =
     (if hasHttpPrefix href then startsWith (toNormalizedUrl newURL href False) baseUrl
      else if startsWith href ''/'' then
        (let basePath = (case getUrlPath newURL baseUrl of
                           None \<Rightarrow> ''/''
                         | Some p \<Rightarrow> if p = [] then ''/'' else p)
         in startsWith href basePath)
      else if \<not> includesStr href '':'' then True
      else False)"

definition completeHrefWithBaseUrl :: "(string \<Rightarrow> string) \<Rightarrow> string \<Rightarrow> string \<Rightarrow> string" where
  "completeHrefWithBaseUrl removeSchema baseUrl href =
     (if startsWith href ''/'' then toNormalizedOrigin removeSchema baseUrl False @ href
      else if hasHttpPrefix href then href
      else baseUrl @ ''/'' @ href)"

definition getNameFromUrlOrPath :: "string \<Rightarrow> string" where
  "getNameFromUrlOrPath url =
     (let baseName = last (splitOn CHR ''/'' url)
      in if endsWith baseName ''.html'' then baseName
         else if length baseName > 0 then baseName @ ''.html''
         else ''index.html'')"

definition uniq :: "'a list \<Rightarrow> 'a list" where
  \<comment> \<open>lodash \<open>uniq\<close>: the first occurrence of every element, in order\<close>
  "uniq xs = rev (remdups (rev xs))"


section \<open>Ingestion: one file\<close>

datatype training_state =
  Idle | FetchingData | Loading nat nat string | CancelRequested | Complete "string list"

record store =
  trainingState :: training_state
  errors :: "string list"
  stopFlag :: bool

record file_data =
  fd_path :: string
  fd_name :: string
  fd_content :: string

record api_error =
  err_status :: int
  err_name :: string
  err_json :: string

text \<open>
  What one run of \<open>generateEmbeddings\<close> is given. The embedding processor
  (\<open>processFile\<close>), the content fetch of the source adapter (\<open>getFileNameContent\<close>), the
  checksum rows read from the \<open>files\<close> table, SHA-256 (\<open>createChecksum\<close>) and the error
  identifier \<open>API_ERROR_ID_CONTENT_TOKEN_QUOTA_EXCEEDED\<close> are outside the sources at hand and
  are parameters. A promise that rejects is \<open>Inl\<close>; \<open>undefined\<close> content is \<open>Inr None\<close>;
  a row whose checksum is null has \<open>None\<close>.
\<close>

record sync_env =
  minimatch :: glob_matcher
  newURL :: url_parser
  includeGlobs :: "string list"
  excludeGlobs :: "string list"
  createChecksum :: "string \<Rightarrow> string"
  quotaErrorId :: string
  hasProject :: bool
  checksums :: "(string \<times> string option) list"
  isWebsite :: bool
  numFiles :: nat
  getFilePath :: "nat \<Rightarrow> string"
  getFileNameContent :: "nat \<Rightarrow> api_error + (string \<times> string) option"
  processFile :: "nat \<Rightarrow> file_data \<Rightarrow> api_error + unit"

datatype effect =
    SetState training_state
  | FetchContent
  | Submit file_data
  | AppendError string
  | FileProcessed
  | QuotaToast
  | ErrorToast string

datatype phase =
    AwaitContent string "string option"
  | AwaitProcess file_data

definition prevChecksumOf :: "sync_env \<Rightarrow> string \<Rightarrow> string option" where
  \<comment> \<open>\<open>checksums?.find((c) => c.path === path)?.checksum\<close>\<close>
  "prevChecksumOf env p =
     (case find (\<lambda>c. fst c = p) (checksums env) of None \<Rightarrow> None | Some c \<Rightarrow> snd c)"

definition isQuotaExceeded :: "sync_env \<Rightarrow> api_error \<Rightarrow> bool" where
  "isQuotaExceeded env e = (err_status e = 403 \<and> err_name e = quotaErrorId env)"

text \<open>
  \<open>_generateEmbeddingForFile\<close> runs in three pieces, cut at its two \<open>await\<close>s. Each piece
  returns where the task stands and the effects it performed, in order.
\<close>

definition gen_start :: "sync_env \<Rightarrow> nat \<Rightarrow> bool \<Rightarrow> phase option \<times> effect list" where
  \<comment> \<open>up to the call of \<open>getFileNameContent\<close>; \<open>None\<close> is a plain \<open>return\<close>\<close>
  "gen_start env index stop =
     (if stop then (None, [])
      else let p = getFilePath env index
           in if \<not> shouldIncludeFileWithPath (minimatch env) (newURL env) p
                     (includeGlobs env) (excludeGlobs env) (isWebsite env)
              then (None, [])
              else (Some (AwaitContent p (prevChecksumOf env p)),
                    [SetState (Loading (index + 1) (numFiles env) (last (splitOn CHR ''/'' p))),
                     FetchContent]))"

definition gen_on_content ::
  "sync_env \<Rightarrow> string \<Rightarrow> string option \<Rightarrow> api_error + (string \<times> string) option
     \<Rightarrow> ((api_error + unit) + file_data) \<times> effect list" where
  \<comment> \<open>from the answer of \<open>getFileNameContent\<close> up to the call of \<open>processFile\<close>;
      \<open>Inl r\<close> is the end of the task with result \<open>r\<close>\<close>
  "gen_on_content env p prevChecksum answer =
     (case answer of
        Inl e \<Rightarrow> (Inl (Inl e), [])
      | Inr None \<Rightarrow> (Inl (Inr ()), [])
      | Inr (Some (nm, cont)) \<Rightarrow>
          (let currentChecksum = createChecksum env cont
           in if prevChecksum = Some currentChecksum then (Inl (Inr ()), [])
              else (let file = \<lparr>fd_path = p, fd_name = nm, fd_content = cont\<rparr>
                    in (Inr file, [Submit file]))))"

definition gen_on_processed ::
  "sync_env \<Rightarrow> file_data \<Rightarrow> api_error + unit \<Rightarrow> (api_error + unit) \<times> effect list" where
  \<comment> \<open>from the answer of \<open>processFile\<close> to the end\<close>
  "gen_on_processed env file answer =
     (case answer of
        Inr _ \<Rightarrow> (Inr (), [FileProcessed])
      | Inl e \<Rightarrow>
          if isQuotaExceeded env e then (Inl e, [QuotaToast, FileProcessed, SetState Idle])
          else (Inr (),
                [ErrorToast (''Error processing file '' @ fd_name file @ '': '' @ err_json e),
                 AppendError (''Error processing '' @ fd_name file @ '': '' @ err_json e),
                 FileProcessed]))"

definition generateEmbeddingForFile ::
  "sync_env \<Rightarrow> nat \<Rightarrow> bool \<Rightarrow> (api_error + unit) \<times> effect list" where
  \<comment> \<open>the whole of \<open>_generateEmbeddingForFile\<close> for one index: its result and all its
      effects; \<open>stop\<close> is the value of the stop flag when the task starts. The first piece
      never stops at \<open>processFile\<close>, so the second case does not occur.\<close>
  "generateEmbeddingForFile env index stop =
     (case gen_start env index stop of
        (None, e1) \<Rightarrow> (Inr (), e1)
      | (Some (AwaitProcess file), e1) \<Rightarrow> (Inr (), e1)
      | (Some (AwaitContent p prev), e1) \<Rightarrow>
          (case gen_on_content env p prev (getFileNameContent env index) of
             (Inl r, e2) \<Rightarrow> (r, e1 @ e2)
           | (Inr file, e2) \<Rightarrow>
               (case gen_on_processed env file (processFile env index file) of
                  (r, e3) \<Rightarrow> (r, e1 @ e2 @ e3))))"

definition submissions :: "effect list \<Rightarrow> file_data list" where
  "submissions effs = concat (map (\<lambda>e. case e of Submit f \<Rightarrow> [f] | _ \<Rightarrow> []) effs)"

definition recordedErrors :: "effect list \<Rightarrow> string list" where
  "recordedErrors effs = concat (map (\<lambda>e. case e of AppendError m \<Rightarrow> [m] | _ \<Rightarrow> []) effs)"

definition callbacks :: "effect list \<Rightarrow> nat" where
  \<comment> \<open>how often \<open>onFileProcessed\<close> was called\<close>
  "callbacks effs = length (filter (\<lambda>e. e = FileProcessed) effs)"

section \<open>Ingestion: the pool of one sync pass\<close>

text \<open>
  \<open>generateEmbeddings\<close> hands every index to \<open>pLimit(5)\<close> and awaits \<open>Promise.all\<close>.
  The pool is modelled as a machine: its configuration holds the shared store, the log of
  effects (each with the index of its task), the indices still queued, and the running
  tasks with the \<open>await\<close> each one stands at. p-limit starts queued functions in order,
  one whenever fewer than the width are running, and takes the next one whenever a
  running one settles, fulfilled or rejected. \<open>Promise.all\<close> rejects with the first
  rejection and is fulfilled when every task is. Both are libraries: the pool follows
  their documented behaviour. An event is a click on stop, or the settling of the
  promise that the task of some index awaits (with the answer that the environment
  gives for that index); the settling of an index that is not running changes nothing.
\<close>

record pool =
  p_store :: store
  p_log :: "(nat \<times> effect) list"
  p_queue :: "nat list"
  p_running :: "(nat \<times> phase) list"
  p_rejected :: "api_error option"
  p_returned :: bool
  p_content :: "string list"

datatype event = Stop | Settle nat

definition applyEffect :: "effect \<Rightarrow> store \<Rightarrow> store" where
  "applyEffect e s =
     (case e of
        SetState t \<Rightarrow> s\<lparr>trainingState := t\<rparr>
      | AppendError m \<Rightarrow> s\<lparr>errors := errors s @ [m]\<rparr>
      | _ \<Rightarrow> s)"

definition perform :: "nat \<Rightarrow> effect list \<Rightarrow> pool \<Rightarrow> pool" where
  "perform i effs p =
     p\<lparr>p_store := fold applyEffect effs (p_store p), p_log := p_log p @ map (Pair i) effs\<rparr>"

definition finishTask :: "api_error + unit \<Rightarrow> pool \<Rightarrow> pool" where
  \<comment> \<open>a task has settled; \<open>Promise.all\<close> keeps the first rejection\<close>
  "finishTask r p =
     (case r of
        Inr _ \<Rightarrow> p
      | Inl e \<Rightarrow> (case p_rejected p of None \<Rightarrow> p\<lparr>p_rejected := Some e\<rparr> | Some _ \<Rightarrow> p))"

fun pump :: "nat \<Rightarrow> sync_env \<Rightarrow> nat list \<Rightarrow> pool \<Rightarrow> pool" where
  \<comment> \<open>p-limit takes queued tasks while fewer than \<open>w\<close> are running; a task that returns
      before its first \<open>await\<close> frees its place at once\<close>
  "pump w env [] p = p\<lparr>p_queue := []\<rparr>"
| "pump w env (i # q) p =
     (if length (p_running p) < w then
        (case gen_start env i (stopFlag (p_store p)) of
           (None, effs) \<Rightarrow> pump w env q (perform i effs p)
         | (Some ph, effs) \<Rightarrow>
             pump w env q ((perform i effs p)\<lparr>p_running := p_running p @ [(i, ph)]\<rparr>))
      else p\<lparr>p_queue := i # q\<rparr>)"

definition resume :: "pool \<Rightarrow> pool" where
  \<comment> \<open>the rest of \<open>generateEmbeddings\<close> once \<open>Promise.all\<close> has settled: the rejection is
      caught and logged, the state is set to idle, and the function returns\<close>
  "resume p =
     (if p_returned p then p
      else if (case p_rejected p of Some _ \<Rightarrow> True | None \<Rightarrow> p_running p = [] \<and> p_queue p = [])
           then p\<lparr>p_store := (p_store p)\<lparr>trainingState := Idle\<rparr>, p_returned := True\<rparr>
           else p)"

definition continueTask ::
  "sync_env \<Rightarrow> nat \<Rightarrow> phase \<Rightarrow> ((api_error + unit) + phase) \<times> effect list" where
  "continueTask env i ph =
     (case ph of
        AwaitContent p prev \<Rightarrow>
          (case gen_on_content env p prev (getFileNameContent env i) of
             (Inl r, effs) \<Rightarrow> (Inl r, effs)
           | (Inr file, effs) \<Rightarrow> (Inr (AwaitProcess file), effs))
      | AwaitProcess file \<Rightarrow>
          (case gen_on_processed env file (processFile env i file) of
             (r, effs) \<Rightarrow> (Inl r, effs)))"

definition noteContent :: "sync_env \<Rightarrow> nat \<Rightarrow> phase \<Rightarrow> pool \<Rightarrow> pool" where
  \<comment> \<open>the contents that the fetches have delivered, in order of arrival; for a website
      source this is the array \<open>processedContent\<close>\<close>
  "noteContent env i ph p =
     (case ph of
        AwaitProcess _ \<Rightarrow> p
      | AwaitContent _ _ \<Rightarrow>
          (case getFileNameContent env i of
             Inr (Some (nm, cont)) \<Rightarrow> p\<lparr>p_content := p_content p @ [cont]\<rparr>
           | _ \<Rightarrow> p))"

definition stopGeneratingEmbeddings :: "store \<Rightarrow> store" where
  "stopGeneratingEmbeddings s = s\<lparr>stopFlag := True, trainingState := CancelRequested\<rparr>"

definition pool_step :: "nat \<Rightarrow> sync_env \<Rightarrow> event \<Rightarrow> pool \<Rightarrow> pool" where
  "pool_step w env ev p =
     (case ev of
        Stop \<Rightarrow> p\<lparr>p_store := stopGeneratingEmbeddings (p_store p)\<rparr>
      | Settle i \<Rightarrow>
          (case map_of (p_running p) i of
             None \<Rightarrow> p
           | Some ph \<Rightarrow>
               (case continueTask env i ph of
                  (Inr ph', effs) \<Rightarrow>
                    resume ((perform i effs (noteContent env i ph p))
                      \<lparr>p_running := map (\<lambda>t. if fst t = i then (i, ph') else t) (p_running p)\<rparr>)
                | (Inl r, effs) \<Rightarrow>
                    (let p1 = (perform i effs (noteContent env i ph p))
                                \<lparr>p_running := filter (\<lambda>t. fst t \<noteq> i) (p_running p)\<rparr>
                     in resume (pump w env (p_queue p1) (finishTask r p1))))))"

definition pool_run :: "nat \<Rightarrow> sync_env \<Rightarrow> event list \<Rightarrow> pool \<Rightarrow> pool" where
  "pool_run w env evs p = foldl (\<lambda>q ev. pool_step w env ev q) p evs"

definition concurrencyLimit :: nat where
  "concurrencyLimit = 5"

definition pool_init :: "nat \<Rightarrow> sync_env \<Rightarrow> bool \<Rightarrow> store \<Rightarrow> pool" where
  \<comment> \<open>\<open>generateEmbeddings\<close> up to its \<open>await Promise.all\<close>; \<open>stopDuringLoad\<close> says that stop
      was clicked while the checksum rows were being read\<close>
  "pool_init w env stopDuringLoad s =
     (if \<not> hasProject env
      then \<lparr>p_store = s, p_log = [], p_queue = [], p_running = [], p_rejected = None,
            p_returned = True, p_content = []\<rparr>
      else let s1 = s\<lparr>errors := [], stopFlag := False\<rparr>;
               s2 = (if stopDuringLoad then stopGeneratingEmbeddings s1 else s1)
           in resume (pump w env [0..<numFiles env]
                \<lparr>p_store = s2, p_log = [], p_queue = [], p_running = [], p_rejected = None,
                 p_returned = False, p_content = []\<rparr>))"

definition generateEmbeddings :: "sync_env \<Rightarrow> bool \<Rightarrow> event list \<Rightarrow> store \<Rightarrow> pool" where
  \<comment> \<open>everything the pool of one invocation does under the events \<open>evs\<close>, also after the
      invocation has returned to its caller\<close>
  "generateEmbeddings env stopDuringLoad evs s =
     pool_run concurrencyLimit env evs (pool_init concurrencyLimit env stopDuringLoad s)"


definition submittedBy :: "pool \<Rightarrow> (nat \<times> file_data) list" where
  "submittedBy p =
     concat (map (\<lambda>t. case snd t of Submit f \<Rightarrow> [(fst t, f)] | _ \<Rightarrow> []) (p_log p))"


section \<open>The website source\<close>

text \<open>
  The website branch of \<open>_trainSource\<close>. \<open>extractLinksFromHtml\<close>, \<open>isSitemapUrl\<close>,
  \<open>fetchSitemapUrls\<close> and \<open>fetchPageContent\<close> belong to a module outside the sources at hand
  and are parameters, as is the text \<open>`${e}`\<close> of an error. The branch is written over
  any way of running one pass: \<open>pass urls st\<close> is \<open>generateEmbeddingsForUrls(urls)\<close> started
  in \<open>st\<close>; it is \<open>None\<close> when the pass never returns, \<open>Inl\<close> when it throws, and otherwise
  the array \<open>processedContent\<close>.
\<close>

record web_env =
  w_newURL :: url_parser
  w_removeSchema :: "string \<Rightarrow> string"
  extractLinksFromHtml :: "string \<Rightarrow> string list"
  isSitemapUrl :: "string \<Rightarrow> bool"
  fetchSitemapUrls :: "string \<Rightarrow> api_error + string list"
  errorText :: "api_error \<Rightarrow> string"

type_synonym 's pass = "string list \<Rightarrow> 's \<Rightarrow> ((api_error + string list) \<times> 's) option"

definition discoverLinks :: "web_env \<Rightarrow> string \<Rightarrow> string list \<Rightarrow> string list" where
  \<comment> \<open>\<open>discoveredLinks\<close>; \<open>filter(isPresent)\<close> keeps every string\<close>
  "discoverLinks env baseUrl processedContent =
     map (completeHrefWithBaseUrl (w_removeSchema env) baseUrl)
       (filter (isHrefFromBaseUrl (w_newURL env) baseUrl)
         (uniq (concat (map (extractLinksFromHtml env) processedContent))))"

fun crawl ::
  "nat \<Rightarrow> web_env \<Rightarrow> 's pass \<Rightarrow> string \<Rightarrow> string list \<Rightarrow> string list \<Rightarrow> string list list \<Rightarrow> 's
     \<Rightarrow> (string list \<times> string list list \<times> 's) option" where
  \<comment> \<open>the \<open>while\<close> loop, one unit of fuel for each round: \<open>None\<close> when the fuel runs out or
      a pass never returns. The result is \<open>processedLinks\<close>, the list of all frontiers
      handed to a pass, and the final state.\<close>
  "crawl 0 env pass baseUrl processedLinks linksToProcess rounds st =
     (if linksToProcess = [] then Some (processedLinks, rounds, st) else None)"
| "crawl (Suc fuel) env pass baseUrl processedLinks linksToProcess rounds st =
     (if linksToProcess = [] then Some (processedLinks, rounds, st)
      else case pass linksToProcess st of
             None \<Rightarrow> None
           | Some (Inl e, st') \<Rightarrow> Some (processedLinks, rounds @ [linksToProcess], st')
           | Some (Inr processedContent, st') \<Rightarrow>
               (let discoveredLinks = discoverLinks env baseUrl processedContent;
                    processedLinks' = processedLinks @ linksToProcess;
                    linksToProcess' = filter (\<lambda>link. link \<notin> set processedLinks') discoveredLinks
                in crawl fuel env pass baseUrl processedLinks' linksToProcess'
                     (rounds @ [linksToProcess]) st'))"

definition websiteErrorMessage :: "web_env \<Rightarrow> string \<Rightarrow> api_error \<Rightarrow> string" where
  "websiteErrorMessage env origin e =
     ''Error processing website '' @ origin @ '': '' @ errorText env e"

definition trainSourceWebsite ::
  "nat \<Rightarrow> web_env \<Rightarrow> 's pass \<Rightarrow> string \<Rightarrow> 's \<Rightarrow> (string list list \<times> string list \<times> 's) option" where
  \<comment> \<open>the result: the candidate lists handed to a pass, in order; the messages given to
      \<open>onError\<close>; the final state\<close>
  "trainSourceWebsite fuel env pass url st =
     (let baseUrl = toNormalizedUrl (w_newURL env) url False;
          origin = toNormalizedOrigin (w_removeSchema env) baseUrl False
      in if isSitemapUrl env baseUrl then
           (case fetchSitemapUrls env baseUrl of
              Inl e \<Rightarrow> Some ([], [websiteErrorMessage env origin e], st)
            | Inr sitemapUrls \<Rightarrow>
                (case pass (js_slice sitemapUrls 0 10) st of
                   None \<Rightarrow> None
                 | Some (Inl e, st') \<Rightarrow>
                     Some ([js_slice sitemapUrls 0 10], [websiteErrorMessage env origin e], st')
                 | Some (Inr processedContent, st') \<Rightarrow>
                     Some ([js_slice sitemapUrls 0 10], [], st')))
         else
           (case crawl fuel env pass baseUrl [] [url] [] st of
              None \<Rightarrow> None
            | Some (processedLinks, rounds, st') \<Rightarrow> Some (rounds, [], st')))"

text \<open>One pass over a list of URLs, run by the pool.\<close>

definition websiteSyncEnv ::
  "sync_env \<Rightarrow> (string \<Rightarrow> api_error + string option) \<Rightarrow> string list \<Rightarrow> sync_env" where
  \<comment> \<open>the arguments that \<open>generateEmbeddingsForUrls\<close> passes on; the pool asks for indices
      below \<open>urls.length\<close> only. Empty content is falsy in \<open>!content\<close>.\<close>
  "websiteSyncEnv env fetchPageContent urls =
     env\<lparr>isWebsite := True,
         numFiles := length urls,
         getFilePath := (\<lambda>i. urls ! i),
         getFileNameContent := (\<lambda>i.
           case fetchPageContent (urls ! i) of
             Inl e \<Rightarrow> Inl e
           | Inr None \<Rightarrow> Inr None
           | Inr (Some cont) \<Rightarrow>
               if cont = [] then Inr None
               else Inr (Some (getNameFromUrlOrPath (urls ! i), cont)))\<rparr>"

fun runUntilReturn :: "nat \<Rightarrow> sync_env \<Rightarrow> event list \<Rightarrow> pool \<Rightarrow> pool" where
  "runUntilReturn w env [] p = p"
| "runUntilReturn w env (ev # evs) p =
     (if p_returned p then p else runUntilReturn w env evs (pool_step w env ev p))"

definition generateEmbeddingsForUrls ::
  "(string \<Rightarrow> api_error + string option) \<Rightarrow> sync_env \<Rightarrow> bool \<Rightarrow> event list \<Rightarrow> string list \<Rightarrow> store
     \<Rightarrow> (string list \<times> pool) option" where
  \<comment> \<open>the pass up to its return: \<open>processedContent\<close> as it is then, and the pool\<close>
  "generateEmbeddingsForUrls fetchPageContent env stopDuringLoad evs urls s =
     (let wenv = websiteSyncEnv env fetchPageContent urls;
          p = runUntilReturn concurrencyLimit wenv evs
                (pool_init concurrencyLimit wenv stopDuringLoad s)
      in if p_returned p then Some (p_content p, p) else None)"

type_synonym plan = "sync_env \<times> bool \<times> event list"

type_synonym crawl_world = "store \<times> plan list \<times> (string \<times> effect) list"

definition poolPass :: "(string \<Rightarrow> api_error + string option) \<Rightarrow> crawl_world pass" where
  \<comment> \<open>a pass run by the pool: each call takes the next plan (what the call finds in the
      database and at the processor, and the order of events) and adds its effects, each
      with the URL of its task, to the log. Tasks that are still pending when the pass
      returns, which happens after a rejection only, are not followed any further.\<close>
  "poolPass fetchPageContent urls st =
     (case st of (s, plans, lg) \<Rightarrow>
        (case plans of
           [] \<Rightarrow> None
         | (env, stopDuringLoad, evs) # rest \<Rightarrow>
             (case generateEmbeddingsForUrls fetchPageContent env stopDuringLoad evs urls s of
                None \<Rightarrow> None
              | Some (cont, p) \<Rightarrow>
                  Some (Inr cont,
                        (p_store p, rest, lg @ map (\<lambda>t. (urls ! fst t, snd t)) (p_log p))))))"

definition fetchedUrls :: "(string \<times> effect) list \<Rightarrow> string list" where
  \<comment> \<open>the URLs whose page was requested, once for every request\<close>
  "fetchedUrls lg = map fst (filter (\<lambda>t. snd t = FetchContent) lg)"

definition returnValue :: "pool \<Rightarrow> (api_error + unit) option" where
  \<comment> \<open>what the caller of \<open>generateEmbeddings\<close> gets: \<open>None\<close> while the call has not returned;
      the \<open>catch\<close> around \<open>Promise.all\<close> only logs, so the call never throws\<close>
  "returnValue p = (if p_returned p then Some (Inr ()) else None)"

definition poolInvariant :: "pool \<Rightarrow> bool" where
  \<comment> \<open>a queued index is queued once, is not running and has done nothing yet\<close>
  "poolInvariant p =
     (distinct (p_queue p) \<and>
      set (p_queue p) \<inter> (fst ` set (p_running p) \<union> fst ` set (p_log p)) = {})"

definition taskPhases :: "sync_env \<Rightarrow> nat \<Rightarrow> phase list" where
  \<comment> \<open>the \<open>await\<close>s that the task of an index can come to stand at\<close>
  "taskPhases env i =
     (case gen_start env i False of
        (Some (AwaitContent p prev), e1) \<Rightarrow>
          AwaitContent p prev #
            (case gen_on_content env p prev (getFileNameContent env i) of
               (Inr f, e2) \<Rightarrow> [AwaitProcess f]
             | (Inl r, e2) \<Rightarrow> [])
      | _ \<Rightarrow> [])"

definition tasksInvariant :: "sync_env \<Rightarrow> pool \<Rightarrow> bool" where
  \<comment> \<open>every running task stands where \<open>_generateEmbeddingForFile\<close> can stand for its
      index, and every logged effect is one that it performs for that index\<close>
  "tasksInvariant env p =
     (list_all (\<lambda>t. snd t \<in> set (taskPhases env (fst t))) (p_running p) \<and>
      list_all (\<lambda>t. snd t \<in> set (snd (generateEmbeddingForFile env (fst t) False))) (p_log p))"

fun roundsFresh :: "string list \<Rightarrow> string list list \<Rightarrow> bool" where
  \<comment> \<open>no round holds a link that was seen before it, in \<open>seen\<close> or in an earlier round\<close>
  "roundsFresh seen [] = True"
| "roundsFresh seen (r # rs) = (set r \<inter> set seen = {} \<and> roundsFresh (seen @ r) rs)"

fun awaitsContent :: "phase \<Rightarrow> bool" where
  "awaitsContent (AwaitContent p prev) = True"
| "awaitsContent (AwaitProcess f) = False"

definition submitInvariant :: "sync_env \<Rightarrow> pool \<Rightarrow> bool" where
  \<comment> \<open>no index has submitted twice, a task that still awaits its content has not
      submitted, and every index is below \<open>numFiles\<close>\<close>
  "submitInvariant env p =
     (distinct (map fst (submittedBy p)) \<and>
      fst ` set (filter (\<lambda>t. awaitsContent (snd t)) (p_running p))
        \<inter> fst ` set (submittedBy p) = {} \<and>
      list_all (\<lambda>i. i < numFiles env) (p_queue p) \<and>
      list_all (\<lambda>t. fst t < numFiles env) (p_running p) \<and>
      list_all (\<lambda>t. fst t < numFiles env) (p_log p))"

section \<open>Concrete inputs\<close>

text \<open>
  Six Markdown files, all included, none seen before: the processor answers the file of
  index 0 with the quota error and accepts every other file. The identity stands in for
  SHA-256.
\<close>

definition quotaError :: api_error where
  "quotaError = \<lparr>err_status = 403, err_name = ''quota'', err_json = ''{}''\<rparr>"

definition sixFiles :: sync_env where
  "sixFiles =
     \<lparr>minimatch = (\<lambda>p g. g = ''**''),
      newURL = (\<lambda>u. None),
      includeGlobs = [''**''],
      excludeGlobs = [],
      createChecksum = (\<lambda>c. c),
      quotaErrorId = ''quota'',
      hasProject = True,
      checksums = [],
      isWebsite = False,
      numFiles = 6,
      getFilePath = (\<lambda>i. [''a.md'', ''b.md'', ''c.md'', ''d.md'', ''e.md'', ''f.md''] ! i),
      getFileNameContent = (\<lambda>i. Inr (Some (''n'', ''text''))),
      processFile = (\<lambda>i f. if i = 0 then Inl quotaError else Inr ())\<rparr>"

definition fileOf :: "string \<Rightarrow> file_data" where
  "fileOf p = \<lparr>fd_path = p, fd_name = ''n'', fd_content = ''text''\<rparr>"

definition idleStore :: store where
  "idleStore = \<lparr>trainingState = Idle, errors = [], stopFlag = False\<rparr>"

text \<open>The same files when the file of index 1 is stored with the checksum of its content.\<close>

definition sixFilesSeen :: sync_env where
  "sixFilesSeen = sixFiles\<lparr>checksums := [(''b.md'', Some ''text'')]\<rparr>"

text \<open>One page of a website whose fetch delivers nothing (\<open>fetchPageContent\<close> gives null).\<close>

definition onePageNoContent :: sync_env where
  "onePageNoContent =
     sixFiles\<lparr>newURL := (\<lambda>u. if u = ''https://x.com/a''
                               then Some \<lparr>url_protocol = ''https:'', url_hostname = ''x.com'',
                                           url_pathname = ''/a''\<rparr>
                               else None),
              isWebsite := True, numFiles := 1,
              getFilePath := (\<lambda>i. ''https://x.com/a''),
              getFileNameContent := (\<lambda>i. Inr None),
              processFile := (\<lambda>i f. Inr ())\<rparr>"

text \<open>
  A small website. The URL parser and \<open>removeSchema\<close> below stand in for the platform's
  \<open>new URL\<close> and for the helper of the repository: they read strings of the form
  \<open>http://host/path\<close> or \<open>https://host/path\<close> with no port, query or fragment, as \<open>new URL\<close>
  does.
\<close>

definition parseHttpUrl :: url_parser where
  "parseHttpUrl u =
     (if startsWith u ''http://'' \<or> startsWith u ''https://'' then
        (case indexOf u ''://'' of
           None \<Rightarrow> None
         | Some i \<Rightarrow>
             (let rest = drop (i + 3) u;
                  host = takeWhile (\<lambda>c. c \<noteq> CHR ''/'') rest;
                  pth = dropWhile (\<lambda>c. c \<noteq> CHR ''/'') rest
              in if host = [] then None
                 else Some \<lparr>url_protocol = take (i + 1) u, url_hostname = host,
                            url_pathname = (if pth = [] then ''/'' else pth)\<rparr>))
      else None)"

definition dropSchema :: "string \<Rightarrow> string" where
  "dropSchema u = (case indexOf u ''://'' of None \<Rightarrow> u | Some i \<Rightarrow> drop (i + 3) u)"

text \<open>
  The root page links to one page twice, once by the relative reference \<open>a\<close> and once by the
  absolute URL of that page; the page links to nothing.
\<close>

definition twoLinksSite :: web_env where
  "twoLinksSite =
     \<lparr>w_newURL = parseHttpUrl,
      w_removeSchema = dropSchema,
      extractLinksFromHtml = (\<lambda>html. if html = ''root'' then [''a'', ''https://x.com/a''] else []),
      isSitemapUrl = (\<lambda>u. False),
      fetchSitemapUrls = (\<lambda>u. Inr []),
      errorText = err_json\<rparr>"

definition twoLinksFetch :: "string \<Rightarrow> api_error + string option" where
  "twoLinksFetch u = (if u = ''https://x.com'' then Inr (Some ''root'') else Inr (Some ''page''))"

definition acceptAll :: sync_env where
  \<comment> \<open>what every pass of the examples finds: no stored checksum, a processor that accepts\<close>
  "acceptAll = sixFiles\<lparr>newURL := parseHttpUrl, processFile := (\<lambda>i f. Inr ())\<rparr>"

definition twoLinksWorld :: crawl_world where
  "twoLinksWorld =
     (idleStore,
      [(acceptAll, False, [Settle 0, Settle 0]),
       (acceptAll, False, [Settle 0, Settle 1, Settle 0, Settle 1])],
      [])"

text \<open>Two pages that link to each other.\<close>

definition cycleSite :: web_env where
  "cycleSite =
     twoLinksSite\<lparr>extractLinksFromHtml :=
       (\<lambda>html. if html = ''A'' then [''https://x.com/b'']
                else if html = ''B'' then [''https://x.com''] else [])\<rparr>"

definition cycleFetch :: "string \<Rightarrow> api_error + string option" where
  "cycleFetch u = (if u = ''https://x.com'' then Inr (Some ''A'') else Inr (Some ''B''))"

definition cycleWorld :: crawl_world where
  "cycleWorld =
     (idleStore,
      [(acceptAll, False, [Settle 0, Settle 0]), (acceptAll, False, [Settle 0, Settle 0])],
      [])"

text \<open>A sitemap of fifteen pages.\<close>

definition fifteenUrls :: "string list" where
  "fifteenUrls = map (\<lambda>c. ''https://x.com/'' @ [c]) ''abcdefghijklmno''"

definition sitemapSite :: web_env where
  "sitemapSite =
     twoLinksSite\<lparr>isSitemapUrl := (\<lambda>u. u = ''https://x.com/sitemap.xml''),
                  fetchSitemapUrls := (\<lambda>u. Inr fifteenUrls)\<rparr>"

definition sitemapWorld :: crawl_world where
  "sitemapWorld =
     (idleStore,
      [(acceptAll, False,
        map Settle [0, 1, 2, 3, 4, 0, 1, 2, 3, 4, 5, 6, 7, 8, 9, 5, 6, 7, 8, 9])],
      [])"


text \<open>
  A stand-in for \<open>minimatch\<close> on the two globs of the examples: \<open>**\<close> matches every path
  and \<open>docs/**\<close> every path under \<open>docs/\<close>, in both cases unless a component of the path
  starts with a dot.
\<close>

definition exampleGlobs :: glob_matcher where
  "exampleGlobs p g =
     (\<not> hasDotComponent p \<and> (g = ''**'' \<or> (g = ''docs/**'' \<and> startsWith p ''docs/'')))"

section \<open>Properties\<close>


subsection \<open>Splitting and joining words\<close>

lemma splitWs_not_Nil: "splitWs b s \<noteq> []"
  by (induction s arbitrary: b) (auto split: list.splits)

lemma length_joinWith:
  "ws \<noteq> [] \<Longrightarrow>
   length (joinWith sep ws) = sum_list (map length ws) + length sep * (length ws - 1)"
  by (induction sep ws rule: joinWith.induct) auto

text \<open>The weight of a list of words: their characters and one separator after each.\<close>

lemma splitWs_weight:
  "sum_list (map length (splitWs b s)) + length (splitWs b s) \<le> Suc (length s)"
proof (induction s arbitrary: b)
  case Nil
  then show ?case by simp
next
  case (Cons c cs)
  show ?case
  proof (cases "is_space c")
    case True
    then show ?thesis using Cons[of True] by (cases b) auto
  next
    case False
    obtain w ws where "splitWs False cs = w # ws"
      using splitWs_not_Nil[of False cs] by (cases "splitWs False cs") auto
    then show ?thesis using Cons[of False] False by simp
  qed
qed

lemma length_join_weight:
  "length (joinWith '' '' ws) + 1
     \<le> sum_list (map length ws) + length ws + (if ws = [] then 1 else 0)"
  by (cases "ws = []") (auto simp: length_joinWith)

lemma weight_take:
  "sum_list (map length (take n ws)) + length (take n ws)
     \<le> sum_list (map length ws) + length (ws :: string list)"
proof -
  have "sum_list (map length (take n ws @ drop n ws))
          = sum_list (map length (take n ws)) + sum_list (map length (drop n ws))"
    unfolding map_append sum_list.append ..
  then show ?thesis by simp
qed

lemma weight_drop:
  "sum_list (map length (drop n ws)) + length (drop n ws)
     \<le> sum_list (map length ws) + length (ws :: string list)"
proof -
  have "sum_list (map length (take n ws @ drop n ws))
          = sum_list (map length (take n ws)) + sum_list (map length (drop n ws))"
    unfolding map_append sum_list.append ..
  then show ?thesis by simp
qed

lemma weight_slice:
  "sum_list (map length (js_slice ws a b)) + length (js_slice ws a b)
     \<le> sum_list (map length ws) + length (ws :: string list)"
  unfolding js_slice_def using weight_take[of "b - a" "drop a ws"] weight_drop[of a ws]
  by linarith

lemma length_join_split: "length (joinWith '' '' (splitWs False s)) \<le> length s"
  using splitWs_weight[of False s] length_join_weight[of "splitWs False s"]
    splitWs_not_Nil[of False s]
  by auto

lemma length_join_split_slice:
  "length (splitWs False s) > 3 \<Longrightarrow>
   length (joinWith '' '' (js_slice (splitWs False s) 1 (length (splitWs False s) - 1)))
     \<le> length s"
  using splitWs_weight[of False s]
    length_join_weight[of "js_slice (splitWs False s) 1 (length (splitWs False s) - 1)"]
    weight_slice[of "splitWs False s" 1 "length (splitWs False s) - 1"]
  by (auto simp: js_slice_def split: if_splits)

lemma length_js_slice: "length (js_slice xs a b) \<le> b - a"
  by (simp add: js_slice_def)

subsection \<open>The length of a snippet\<close>

text \<open>
  Claim C10. With the default \<open>maxLength\<close> of 200, the snippet that \<open>createKWICSnippet\<close>
  returns has at most 200 characters, for every content, every search term and every
  Markdown stripper, whether the term is found or not: splitting the window into words,
  dropping the first and the last one and joining the rest with single spaces never
  makes it longer.
\<close>

theorem snippet_length_le_200:
  "length (createKWICSnippet stripMarkdown content searchTerm 200) \<le> 200"
proof (cases "indexOf (plainTextOf stripMarkdown content) searchTerm")
  case None
  then show ?thesis by (simp add: createKWICSnippet_def js_slice_def)
next
  case (Some i)
  define raw where
    "raw = js_slice (plainTextOf stripMarkdown content) (i - roundHalf 200) (i + roundHalf 200)"
  have r: "length raw \<le> 200"
    using length_js_slice[of "plainTextOf stripMarkdown content" "i - roundHalf 200"
        "i + roundHalf 200"]
    by (simp add: raw_def roundHalf_def)
  show ?thesis
  proof (cases "length (splitWs False raw) > 3")
    case True
    then show ?thesis using Some r length_join_split_slice[of raw]
      by (simp add: createKWICSnippet_def Let_def raw_def[symmetric])
  next
    case False
    then show ?thesis using Some r length_join_split[of raw]
      by (simp add: createKWICSnippet_def Let_def raw_def[symmetric])
  qed
qed

subsection \<open>The first occurrence of the search term\<close>















subsection \<open>Whitespace\<close>












subsection \<open>What a snippet is\<close>




subsection \<open>Dot components and extensions\<close>

lemma includesStr_Cons: "includesStr (c # cs) t = (startsWith (c # cs) t \<or> includesStr cs t)"
  by (auto simp: includesStr_def)

lemma includesStr_Nil: "includesStr [] t = (t = [])"
  by (auto simp: includesStr_def)

lemma splitOn_not_Nil: "splitOn d s \<noteq> []"
  by (induction s) (auto split: list.splits)

lemma startsWith_dot_Cons: "startsWith (c # cs) ''.'' = (c = CHR ''.'')"
  by (simp add: startsWith_def)

lemma startsWith_dot_Nil: "startsWith [] ''.'' = False"
  by (simp add: startsWith_def)

lemma startsWith_slashdot_Cons: "startsWith (c # cs) ''/.'' = (c = CHR ''/'' \<and> startsWith cs ''.'')"
  by (cases cs) (auto simp: startsWith_def)

lemma dot_split:
  "splitOn CHR ''/'' s = w # ws \<Longrightarrow>
     (startsWith w ''.'' = startsWith s ''.'') \<and>
     (list_ex (\<lambda>v. startsWith v ''.'') ws = includesStr s ''/.'')"
proof (induction s arbitrary: w ws)
  case Nil
  then show ?case by (simp add: includesStr_Nil)
next
  case (Cons c cs)
  obtain v vs where e: "splitOn CHR ''/'' cs = v # vs"
    using splitOn_not_Nil[of "CHR ''/''" cs] by (cases "splitOn CHR ''/'' cs") auto
  note ih = Cons.IH[OF e]
  show ?case
  proof (cases "c = CHR ''/''")
    case True
    then have "w = []" "ws = v # vs" using Cons.prems e by auto
    then show ?thesis using ih True
      by (simp add: includesStr_Cons startsWith_dot_Cons startsWith_dot_Nil startsWith_slashdot_Cons)
  next
    case False
    then have "w = c # v" "ws = vs" using Cons.prems e by auto
    then show ?thesis using ih False
      by (simp add: includesStr_Cons startsWith_dot_Cons startsWith_slashdot_Cons)
  qed
qed

lemma hasDotComponent_iff: "hasDotComponent p = (startsWith p ''.'' \<or> includesStr p ''/.'')"
proof -
  obtain w ws where e: "splitOn CHR ''/'' p = w # ws"
    using splitOn_not_Nil[of "CHR ''/''" p] by (cases "splitOn CHR ''/'' p") auto
  show ?thesis using dot_split[OF e] by (simp add: hasDotComponent_def e)
qed

lemma ext_slash: "getFileExtension (p @ ''/'') = None"
  by (simp add: getFileExtension_def is_word_char_def)

lemma supported_slash: "isSupportedFileType (p @ ''/'')"
  by (simp add: isSupportedFileType_def ext_slash)

lemma startsWith_append: "startsWith p q \<Longrightarrow> startsWith (p @ r) q"
proof -
  assume a: "startsWith p q"
  then have "length (take (length q) p) = length q" by (simp add: startsWith_def)
  then have "length q \<le> length p" by simp
  then show ?thesis using a by (simp add: startsWith_def)
qed

lemma includesStr_empty: "includesStr s []"
  by (cases s) (auto simp: includesStr_def startsWith_def)

lemma includesStr_append: "includesStr p t \<Longrightarrow> includesStr (p @ r) t"
proof (induction p)
  case Nil
  then show ?case by (simp add: includesStr_Nil includesStr_empty)
next
  case (Cons c cs)
  then show ?case using startsWith_append[of "c # cs" t r]
    by (auto simp: includesStr_Cons)
qed

lemma hasDot_websitePath:
  "startsWith p ''.'' \<or> includesStr p ''/.'' \<Longrightarrow>
   startsWith (websitePath nu p) ''.'' \<or> includesStr (websitePath nu p) ''/.''"
  using startsWith_append[of p "''.''" "''/''"] includesStr_append[of p "''/.''" "''/''"]
  by (auto simp: websitePath_def Let_def)

lemmas filter_eval = shouldIncludeFileWithPath_def websitePath_def urlHasPath_def getUrlPath_def
  startsWith_def endsWith_def includesStr_def isSupportedFileType_def getFileExtension_def
  SUPPORTED_EXTENSIONS_def matchesGlobs_def is_word_char_def hasDotComponent_def

lemma dot_not_word: "\<not> is_word_char CHR ''.''"
  by (simp add: is_word_char_def)

lemma getFileExtension_iff:
  "getFileExtension p = Some e \<longleftrightarrow> (\<exists>q. p = q @ ''.'' @ e \<and> list_all is_word_char e)"
proof
  assume a: "getFileExtension p = Some e"
  let ?after = "takeWhile (\<lambda>c. c \<noteq> CHR ''.'') (rev p)"
  let ?rest = "dropWhile (\<lambda>c. c \<noteq> CHR ''.'') (rev p)"
  from a have l: "length ?after < length p" and w: "list_all is_word_char ?after" and e: "e = rev ?after"
    by (auto simp: getFileExtension_def Let_def split: if_splits)
  have s: "rev p = ?after @ ?rest" by simp
  have "length (rev p) = length ?after + length ?rest" by (subst s) (simp only: length_append)
  then have ne: "?rest \<noteq> []" using l by auto
  then have "\<not> (hd ?rest \<noteq> CHR ''.'')" by (rule hd_dropWhile)
  then obtain r where r: "?rest = CHR ''.'' # r" using ne by (cases ?rest) auto
  have "rev (rev p) = rev (?after @ CHR ''.'' # r)" using s r by simp
  then have "p = rev r @ ''.'' @ rev ?after" by (simp only: rev_rev_ident rev_append rev.simps append.simps append_assoc)
  moreover have "list_all is_word_char (rev ?after)" using w by (simp add: list_all_iff)
  ultimately show "\<exists>q. p = q @ ''.'' @ e \<and> list_all is_word_char e" using e by blast
next
  assume "\<exists>q. p = q @ ''.'' @ e \<and> list_all is_word_char e"
  then obtain q where p: "p = q @ ''.'' @ e" and w: "list_all is_word_char e" by blast
  have nd: "\<And>c. c \<in> set (rev e) \<Longrightarrow> c \<noteq> CHR ''.''"
    using w dot_not_word by (auto simp: list_all_iff)
  have rp: "rev p = rev e @ CHR ''.'' # rev q" using p by simp
  have "takeWhile (\<lambda>c. c \<noteq> CHR ''.'') (rev e @ CHR ''.'' # rev q)
          = rev e @ takeWhile (\<lambda>c. c \<noteq> CHR ''.'') (CHR ''.'' # rev q)"
    by (rule takeWhile_append2) (rule nd)
  then have t: "takeWhile (\<lambda>c. c \<noteq> CHR ''.'') (rev p) = rev e"
    unfolding rp by simp
  have "length (rev e) < length p" using p by simp
  moreover have "list_all is_word_char (rev e)" using w by (simp add: list_all_iff)
  ultimately show "getFileExtension p = Some e"
    by (simp add: getFileExtension_def Let_def t)
qed

lemma urlHasPath_iff:
  "urlHasPath nu p \<longleftrightarrow> (\<exists>u. nu p = Some u \<and> url_pathname u \<noteq> [] \<and> url_pathname u \<noteq> ''/'')"
  by (cases "nu p") (simp_all add: urlHasPath_def getUrlPath_def)

lemma websitePath_cases:
  "websitePath nu p = (if urlHasPath nu p \<or> endsWith p ''/'' then p else p @ ''/'')"
  by (simp add: websitePath_def Let_def)

subsection \<open>What the path filter accepts\<close>

text \<open>
  Claim C5, as the source has it. For every path, every list of include globs and of
  exclude globs, every glob matcher and every URL parser, \<open>shouldIncludeFileWithPath\<close>
  \<^item> rejects a path one of whose components starts with a dot (a dotfile or a file under
    a dot-directory);
  \<^item> rejects a path whose extension is not empty and not one of \<open>md\<close>, \<open>mdx\<close>, \<open>mdoc\<close>,
    \<open>rst\<close>, \<open>txt\<close>, \<open>html\<close>, \<open>htm\<close>; the extension is what follows the last dot, when all
    of that is letters, digits and underscores; for a website source the extension is read
    after the website rule;
  \<^item> the website rule: a URL has a path when the URL parser reads it and gives a pathname
    other than the empty one and \<open>/\<close>. A website URL that has a path, or that ends with a
    slash, is left as it is and is filtered as the path of any other source, so that
    \<open>https://markprompt.com/favicon.ico\<close> is rejected for its extension. Every other
    string, a root URL as well as a string that the parser cannot read, is followed by a
    slash, which has no extension and so is of a supported type;
  \<^item> accepts a path only if some include glob matches it and no exclude glob does, so
    rejects it when no include glob matches; and accepts every path that passes the dot
    and extension tests and is matched that way.
  Here the globs see the path after the website rule. In particular \<open>.git/config\<close> is
  rejected; \<open>readme.xyz\<close> is rejected under the include glob \<open>**\<close> for a source that is
  not a website, whereas for a website source, when the parser cannot read \<open>readme.xyz\<close>,
  it is accepted exactly when the matcher matches \<open>readme.xyz/\<close> against \<open>**\<close>; and where the
  matcher matches \<open>docs/a.md\<close> against \<open>docs/**\<close>, the path \<open>docs/a.md\<close> is accepted under
  the include glob \<open>docs/**\<close> with no exclude glob and rejected when \<open>docs/**\<close> is an
  exclude glob too.
\<close>

theorem shouldIncludeFileWithPath_spec:
  "(hasDotComponent p \<longrightarrow> \<not> shouldIncludeFileWithPath mm nu p inc exc web)
   \<and> ((\<exists>e. getFileExtension (if web then websitePath nu p else p) = Some e \<and> e \<noteq> []
            \<and> e \<notin> set SUPPORTED_EXTENSIONS) \<longrightarrow>
        \<not> shouldIncludeFileWithPath mm nu p inc exc web)
   \<and> (\<not> urlHasPath nu p \<and> \<not> endsWith p ''/'' \<longrightarrow>
        websitePath nu p = p @ ''/'' \<and> isSupportedFileType (websitePath nu p)
        \<and> shouldIncludeFileWithPath mm nu p inc exc True
            = shouldIncludeFileWithPath mm nu (p @ ''/'') inc exc False)
   \<and> (shouldIncludeFileWithPath mm nu p inc exc web \<longrightarrow>
        (\<exists>g \<in> set inc. mm (if web then websitePath nu p else p) g)
        \<and> (\<forall>g \<in> set exc. \<not> mm (if web then websitePath nu p else p) g))
   \<and> ((\<forall>g \<in> set inc. \<not> mm (if web then websitePath nu p else p) g) \<longrightarrow>
        \<not> shouldIncludeFileWithPath mm nu p inc exc web)
   \<and> (\<not> hasDotComponent (if web then websitePath nu p else p)
        \<and> isSupportedFileType (if web then websitePath nu p else p)
        \<and> (\<exists>g \<in> set inc. mm (if web then websitePath nu p else p) g)
        \<and> (\<forall>g \<in> set exc. \<not> mm (if web then websitePath nu p else p) g) \<longrightarrow>
        shouldIncludeFileWithPath mm nu p inc exc web)
   \<and> \<not> shouldIncludeFileWithPath mm nu ''.git/config'' inc exc web
   \<and> \<not> shouldIncludeFileWithPath mm nu ''readme.xyz'' [''**''] exc False
   \<and> (mm ''docs/a.md'' ''docs/**'' \<longrightarrow>
        shouldIncludeFileWithPath mm nu ''docs/a.md'' [''docs/**''] [] False
        \<and> \<not> shouldIncludeFileWithPath mm nu ''docs/a.md'' [''docs/**''] [''docs/**''] False)
   \<and> (urlHasPath nu p
        \<longleftrightarrow> (\<exists>u. nu p = Some u \<and> url_pathname u \<noteq> [] \<and> url_pathname u \<noteq> ''/''))
   \<and> websitePath nu p = (if urlHasPath nu p \<or> endsWith p ''/'' then p else p @ ''/'')
   \<and> (urlHasPath nu p \<or> endsWith p ''/'' \<longrightarrow>
        shouldIncludeFileWithPath mm nu p inc exc True
          = shouldIncludeFileWithPath mm nu p inc exc False)
   \<and> (\<forall>e. getFileExtension p = Some e
            \<longleftrightarrow> (\<exists>q. p = q @ ''.'' @ e \<and> list_all is_word_char e))
   \<and> (isSupportedFileType p
        \<longleftrightarrow> (\<forall>e. getFileExtension p = Some e \<longrightarrow>
               e \<in> {[], ''md'', ''mdx'', ''mdoc'', ''rst'', ''txt'', ''html'', ''htm''}))
   \<and> (map_option url_pathname (nu ''https://markprompt.com/favicon.ico'') = Some ''/favicon.ico'' \<longrightarrow>
        \<not> shouldIncludeFileWithPath mm nu ''https://markprompt.com/favicon.ico'' inc exc True)
   \<and> (map_option url_pathname (nu ''https://markprompt.com'') = Some ''/'' \<longrightarrow>
        shouldIncludeFileWithPath mm nu ''https://markprompt.com'' [''**''] [] True
          = mm ''https://markprompt.com/'' ''**'')
   \<and> (nu ''readme.xyz'' = None \<longrightarrow>
        shouldIncludeFileWithPath mm nu ''readme.xyz'' [''**''] [] True = mm ''readme.xyz/'' ''**'')"
proof -
  let ?ep = "if web then websitePath nu p else p"
  have c1: "hasDotComponent p \<longrightarrow> \<not> shouldIncludeFileWithPath mm nu p inc exc web"
    using hasDot_websitePath[of p nu]
    by (auto simp: hasDotComponent_iff shouldIncludeFileWithPath_def Let_def)
  have c2: "(\<exists>e. getFileExtension ?ep = Some e \<and> e \<noteq> [] \<and> e \<notin> set SUPPORTED_EXTENSIONS) \<longrightarrow>
        \<not> shouldIncludeFileWithPath mm nu p inc exc web"
    by (auto simp: shouldIncludeFileWithPath_def Let_def isSupportedFileType_def)
  have c3: "\<not> urlHasPath nu p \<and> \<not> endsWith p ''/'' \<longrightarrow>
        websitePath nu p = p @ ''/'' \<and> isSupportedFileType (websitePath nu p)
        \<and> shouldIncludeFileWithPath mm nu p inc exc True
            = shouldIncludeFileWithPath mm nu (p @ ''/'') inc exc False"
    using supported_slash[of p]
    by (simp add: shouldIncludeFileWithPath_def websitePath_def Let_def)
  have c4: "shouldIncludeFileWithPath mm nu p inc exc web \<longrightarrow>
        (\<exists>g \<in> set inc. mm ?ep g) \<and> (\<forall>g \<in> set exc. \<not> mm ?ep g)"
    by (auto simp: shouldIncludeFileWithPath_def Let_def matchesGlobs_def list_ex_iff split: if_splits)
  have c5: "(\<forall>g \<in> set inc. \<not> mm ?ep g) \<longrightarrow> \<not> shouldIncludeFileWithPath mm nu p inc exc web"
    using c4 by blast
  have c6: "\<not> hasDotComponent ?ep \<and> isSupportedFileType ?ep
        \<and> (\<exists>g \<in> set inc. mm ?ep g) \<and> (\<forall>g \<in> set exc. \<not> mm ?ep g) \<longrightarrow>
        shouldIncludeFileWithPath mm nu p inc exc web"
    by (auto simp: hasDotComponent_iff shouldIncludeFileWithPath_def Let_def matchesGlobs_def list_ex_iff)
  have d: "hasDotComponent ''.git/config''" by (simp add: hasDotComponent_def startsWith_def)
  have c7: "\<not> shouldIncludeFileWithPath mm nu ''.git/config'' inc exc web"
    using d hasDot_websitePath[of "''.git/config''" nu]
    by (auto simp: hasDotComponent_iff shouldIncludeFileWithPath_def Let_def)
  have c8: "\<not> shouldIncludeFileWithPath mm nu ''readme.xyz'' [''**''] exc False"
    by (simp add: filter_eval)
  have c9: "mm ''docs/a.md'' ''docs/**'' \<longrightarrow>
        shouldIncludeFileWithPath mm nu ''docs/a.md'' [''docs/**''] [] False
        \<and> \<not> shouldIncludeFileWithPath mm nu ''docs/a.md'' [''docs/**''] [''docs/**''] False"
    by (simp add: filter_eval)
  have n1: "urlHasPath nu p
        \<longleftrightarrow> (\<exists>u. nu p = Some u \<and> url_pathname u \<noteq> [] \<and> url_pathname u \<noteq> ''/'')"
    by (rule urlHasPath_iff)
  have n2: "websitePath nu p = (if urlHasPath nu p \<or> endsWith p ''/'' then p else p @ ''/'')"
    by (rule websitePath_cases)
  have n3: "urlHasPath nu p \<or> endsWith p ''/'' \<longrightarrow>
        shouldIncludeFileWithPath mm nu p inc exc True
          = shouldIncludeFileWithPath mm nu p inc exc False"
    by (auto simp: shouldIncludeFileWithPath_def websitePath_cases)
  have n4: "\<forall>e. getFileExtension p = Some e
            \<longleftrightarrow> (\<exists>q. p = q @ ''.'' @ e \<and> list_all is_word_char e)"
    using getFileExtension_iff by blast
  have n5: "isSupportedFileType p
        \<longleftrightarrow> (\<forall>e. getFileExtension p = Some e \<longrightarrow>
               e \<in> {[], ''md'', ''mdx'', ''mdoc'', ''rst'', ''txt'', ''html'', ''htm''})"
    by (cases "getFileExtension p") (auto simp: isSupportedFileType_def SUPPORTED_EXTENSIONS_def)
  have n6: "map_option url_pathname (nu ''https://markprompt.com/favicon.ico'') = Some ''/favicon.ico'' \<longrightarrow>
        \<not> shouldIncludeFileWithPath mm nu ''https://markprompt.com/favicon.ico'' inc exc True"
    by (auto simp: filter_eval)
  have n7: "map_option url_pathname (nu ''https://markprompt.com'') = Some ''/'' \<longrightarrow>
        shouldIncludeFileWithPath mm nu ''https://markprompt.com'' [''**''] [] True
          = mm ''https://markprompt.com/'' ''**''"
    by (auto simp: filter_eval)
  have n8: "nu ''readme.xyz'' = None \<longrightarrow>
        shouldIncludeFileWithPath mm nu ''readme.xyz'' [''**''] [] True = mm ''readme.xyz/'' ''**''"
    by (simp add: filter_eval)
  show ?thesis
    using c1 c2 c3 c4 c5 c6 c7 c8 c9 n1 n2 n3 n4 n5 n6 n7 n8 by (intro conjI)
qed

theorem shouldIncludeFileWithPath_spec_witness:
  "\<not> shouldIncludeFileWithPath exampleGlobs parseHttpUrl ''.git/config'' [''**''] [] False
   \<and> \<not> shouldIncludeFileWithPath exampleGlobs parseHttpUrl ''readme.xyz'' [''**''] [] False
   \<and> shouldIncludeFileWithPath exampleGlobs parseHttpUrl ''docs/a.md'' [''docs/**''] [] False
   \<and> \<not> shouldIncludeFileWithPath exampleGlobs parseHttpUrl ''docs/a.md'' [''docs/**''] [''docs/**''] False
   \<and> \<not> shouldIncludeFileWithPath exampleGlobs parseHttpUrl ''guide/a.md'' [''docs/**''] [] False
   \<and> shouldIncludeFileWithPath exampleGlobs parseHttpUrl ''https://markprompt.com'' [''**''] [] True
   \<and> \<not> shouldIncludeFileWithPath exampleGlobs parseHttpUrl
         ''https://markprompt.com/favicon.ico'' [''**''] [] True
   \<and> urlHasPath parseHttpUrl ''https://markprompt.com/favicon.ico''
   \<and> \<not> urlHasPath parseHttpUrl ''https://markprompt.com''
   \<and> shouldIncludeFileWithPath exampleGlobs parseHttpUrl ''readme.xyz'' [''**''] [] True"
proof -
  let ?mm = exampleGlobs
  let ?nu = parseHttpUrl
  let ?root = "''https://markprompt.com''"
  let ?fav = "''https://markprompt.com/favicon.ico''"
  have "hasDotComponent ''.git/config'' \<longrightarrow>
          \<not> shouldIncludeFileWithPath ?mm ?nu ''.git/config'' [''**''] [] False"
    using shouldIncludeFileWithPath_spec[of "''.git/config''" ?mm ?nu "[''**'']" "[]" False]
    by (elim conjE)
  moreover have "hasDotComponent ''.git/config''" by code_simp
  ultimately have a: "\<not> shouldIncludeFileWithPath ?mm ?nu ''.git/config'' [''**''] [] False" by (rule mp)
  have "(\<exists>e. getFileExtension (if False then websitePath ?nu ''readme.xyz'' else ''readme.xyz'') = Some e
             \<and> e \<noteq> [] \<and> e \<notin> set SUPPORTED_EXTENSIONS) \<longrightarrow>
          \<not> shouldIncludeFileWithPath ?mm ?nu ''readme.xyz'' [''**''] [] False"
    using shouldIncludeFileWithPath_spec[of "''readme.xyz''" ?mm ?nu "[''**'']" "[]" False]
    by (elim conjE)
  moreover have "\<exists>e. getFileExtension (if False then websitePath ?nu ''readme.xyz'' else ''readme.xyz'') = Some e
             \<and> e \<noteq> [] \<and> e \<notin> set SUPPORTED_EXTENSIONS"
    by (simp add: getFileExtension_def is_word_char_def SUPPORTED_EXTENSIONS_def)
  ultimately have b: "\<not> shouldIncludeFileWithPath ?mm ?nu ''readme.xyz'' [''**''] [] False" by (rule mp)
  have "?mm ''docs/a.md'' ''docs/**'' \<longrightarrow>
        shouldIncludeFileWithPath ?mm ?nu ''docs/a.md'' [''docs/**''] [] False
        \<and> \<not> shouldIncludeFileWithPath ?mm ?nu ''docs/a.md'' [''docs/**''] [''docs/**''] False"
    using shouldIncludeFileWithPath_spec[of "''docs/a.md''" ?mm ?nu "[''docs/**'']" "[]" False]
    by (elim conjE)
  moreover have "?mm ''docs/a.md'' ''docs/**''" by code_simp
  ultimately have c: "shouldIncludeFileWithPath ?mm ?nu ''docs/a.md'' [''docs/**''] [] False
        \<and> \<not> shouldIncludeFileWithPath ?mm ?nu ''docs/a.md'' [''docs/**''] [''docs/**''] False"
    by (rule mp)
  have "(\<forall>g \<in> set [''docs/**'']. \<not> ?mm (if False then websitePath ?nu ''guide/a.md'' else ''guide/a.md'') g) \<longrightarrow>
        \<not> shouldIncludeFileWithPath ?mm ?nu ''guide/a.md'' [''docs/**''] [] False"
    using shouldIncludeFileWithPath_spec[of "''guide/a.md''" ?mm ?nu "[''docs/**'']" "[]" False]
    by (elim conjE)
  moreover have "\<forall>g \<in> set [''docs/**'']. \<not> ?mm (if False then websitePath ?nu ''guide/a.md'' else ''guide/a.md'') g"
    by (simp add: exampleGlobs_def startsWith_def)
  ultimately have d: "\<not> shouldIncludeFileWithPath ?mm ?nu ''guide/a.md'' [''docs/**''] [] False" by (rule mp)
  note T = shouldIncludeFileWithPath_spec[of ?root ?mm ?nu "[''**'']" "[]" True]
  have "map_option url_pathname (?nu ?root) = Some ''/'' \<longrightarrow>
        shouldIncludeFileWithPath ?mm ?nu ?root [''**''] [] True = ?mm ''https://markprompt.com/'' ''**''"
    using T by (elim conjE)
  moreover have "map_option url_pathname (?nu ?root) = Some ''/''" by code_simp
  ultimately have "shouldIncludeFileWithPath ?mm ?nu ?root [''**''] [] True
      = ?mm ''https://markprompt.com/'' ''**''" by (rule mp)
  moreover have "?mm ''https://markprompt.com/'' ''**''" by code_simp
  ultimately have e: "shouldIncludeFileWithPath ?mm ?nu ?root [''**''] [] True" by simp
  have "map_option url_pathname (?nu ?fav) = Some ''/favicon.ico'' \<longrightarrow>
        \<not> shouldIncludeFileWithPath ?mm ?nu ?fav [''**''] [] True"
    using T by (elim conjE)
  moreover have pf: "map_option url_pathname (?nu ?fav) = Some ''/favicon.ico''" by code_simp
  ultimately have f: "\<not> shouldIncludeFileWithPath ?mm ?nu ?fav [''**''] [] True" by (rule mp)
  have "urlHasPath ?nu ?fav
        \<longleftrightarrow> (\<exists>u. ?nu ?fav = Some u \<and> url_pathname u \<noteq> [] \<and> url_pathname u \<noteq> ''/'')"
    using shouldIncludeFileWithPath_spec[of ?fav ?mm ?nu "[''**'']" "[]" True] by (elim conjE)
  moreover have "\<exists>u. ?nu ?fav = Some u \<and> url_pathname u \<noteq> [] \<and> url_pathname u \<noteq> ''/''"
    using pf by auto
  ultimately have g: "urlHasPath ?nu ?fav" by (rule iffD2)
  have "urlHasPath ?nu ?root
        \<longleftrightarrow> (\<exists>u. ?nu ?root = Some u \<and> url_pathname u \<noteq> [] \<and> url_pathname u \<noteq> ''/'')"
    using T by (elim conjE)
  moreover have "\<not> (\<exists>u. ?nu ?root = Some u \<and> url_pathname u \<noteq> [] \<and> url_pathname u \<noteq> ''/'')"
  proof -
    have "map_option url_pathname (?nu ?root) = Some ''/''" by code_simp
    then show ?thesis by auto
  qed
  ultimately have h: "\<not> urlHasPath ?nu ?root" by simp
  have "?nu ''readme.xyz'' = None \<longrightarrow>
        shouldIncludeFileWithPath ?mm ?nu ''readme.xyz'' [''**''] [] True = ?mm ''readme.xyz/'' ''**''"
    using T by (elim conjE)
  moreover have "?nu ''readme.xyz'' = None" by code_simp
  ultimately have "shouldIncludeFileWithPath ?mm ?nu ''readme.xyz'' [''**''] [] True
      = ?mm ''readme.xyz/'' ''**''" by (rule mp)
  moreover have "?mm ''readme.xyz/'' ''**''" by code_simp
  ultimately have i: "shouldIncludeFileWithPath ?mm ?nu ''readme.xyz'' [''**''] [] True" by simp
  show ?thesis using a b c d e f g h i by (intro conjI) (elim conjE, assumption)+
qed

text \<open>
  The claim as stated, that the filter rejects unsupported file types for every path and
  rejects \<open>readme.xyz\<close> under the include glob \<open>**\<close>, fails for a website source: the URL
  parser cannot read \<open>readme.xyz\<close>, so the string counts as a root URL, is followed by a
  slash before the extension is read, and is accepted.
\<close>

theorem website_path_skips_extension_test:
  "shouldIncludeFileWithPath exampleGlobs parseHttpUrl ''readme.xyz'' [''**''] [] True
   \<and> getFileExtension ''readme.xyz'' = Some ''xyz''
   \<and> ''xyz'' \<notin> set SUPPORTED_EXTENSIONS
   \<and> parseHttpUrl ''readme.xyz'' = None"
  by code_simp

subsection \<open>The pool: fields that a step leaves alone\<close>

lemma perform_fields:
  "p_running (perform i effs p) = p_running p"
  "p_queue (perform i effs p) = p_queue p"
  "p_rejected (perform i effs p) = p_rejected p"
  "p_returned (perform i effs p) = p_returned p"
  "p_content (perform i effs p) = p_content p"
  "p_log (perform i effs p) = p_log p @ map (Pair i) effs"
  "p_store (perform i effs p) = fold applyEffect effs (p_store p)"
  by (simp_all add: perform_def)

lemma finishTask_fields:
  "p_running (finishTask r p) = p_running p"
  "p_queue (finishTask r p) = p_queue p"
  "p_returned (finishTask r p) = p_returned p"
  "p_content (finishTask r p) = p_content p"
  "p_log (finishTask r p) = p_log p"
  "p_store (finishTask r p) = p_store p"
  by (simp_all add: finishTask_def split: sum.splits option.splits)

lemma resume_fields:
  "p_running (resume p) = p_running p"
  "p_queue (resume p) = p_queue p"
  "p_rejected (resume p) = p_rejected p"
  "p_content (resume p) = p_content p"
  "p_log (resume p) = p_log p"
  by (simp_all add: resume_def)

lemma noteContent_fields:
  "p_running (noteContent env i ph p) = p_running p"
  "p_queue (noteContent env i ph p) = p_queue p"
  "p_rejected (noteContent env i ph p) = p_rejected p"
  "p_returned (noteContent env i ph p) = p_returned p"
  "p_log (noteContent env i ph p) = p_log p"
  "p_store (noteContent env i ph p) = p_store p"
  by (simp_all add: noteContent_def split: phase.splits sum.splits option.splits prod.splits)







subsection \<open>One file\<close>

lemmas effect_counts = submissions_def recordedErrors_def callbacks_def

lemma gen_start_cases:
  "gen_start env i stop = (None, []) \<or>
   (\<not> stop \<and> gen_start env i stop =
      (Some (AwaitContent (getFilePath env i) (prevChecksumOf env (getFilePath env i))),
       [SetState (Loading (i + 1) (numFiles env) (last (splitOn CHR ''/'' (getFilePath env i)))),
        FetchContent]))"
  by (simp add: gen_start_def Let_def)


lemma gen_on_processed_callbacks: "callbacks (snd (gen_on_processed env file answer)) = 1"
  by (cases answer) (simp_all add: gen_on_processed_def callbacks_def Let_def)

lemma gen_on_processed_no_submit: "submissions (snd (gen_on_processed env file answer)) = []"
  by (cases answer) (simp_all add: gen_on_processed_def submissions_def Let_def)

lemma unchanged_file_effects:
  assumes c: "getFileNameContent env index = Inr (Some (nm, cont))"
      and e: "prevChecksumOf env (getFilePath env index) = Some (createChecksum env cont)"
  shows "submissions (snd (generateEmbeddingForFile env index stop)) = []
         \<and> recordedErrors (snd (generateEmbeddingForFile env index stop)) = []
         \<and> callbacks (snd (generateEmbeddingForFile env index stop)) = 0
         \<and> fst (generateEmbeddingForFile env index stop) = Inr ()"
  using gen_start_cases[of env index stop] c e
  by (auto simp: generateEmbeddingForFile_def gen_on_content_def effect_counts)

subsection \<open>The pool under a stop request\<close>

lemma perform_Nil: "perform i [] p = p"
  by (simp add: perform_def)




lemma map_of_running_fst: "map_of (p_running p) i = Some ph \<Longrightarrow> i \<in> fst ` set (p_running p)"
  by (metis domI dom_map_of_conv_image_fst)



subsection \<open>Queued indices have done nothing\<close>

lemma pool_run_append: "pool_run w env (xs @ ys) p = pool_run w env ys (pool_run w env xs p)"
  by (simp add: pool_run_def)

lemma pool_run_Cons: "pool_run w env (ev # evs) p = pool_run w env evs (pool_step w env ev p)"
  by (simp add: pool_run_def)

lemma pool_run_Nil: "pool_run w env [] p = p"
  by (simp add: pool_run_def)

lemma keys_perform_log:
  "fst ` set (p_log (perform i effs p)) \<subseteq> insert i (fst ` set (p_log p))"
  by (auto simp: perform_fields)

lemma pump_invariant:
  "distinct q \<Longrightarrow> set q \<inter> (fst ` set (p_running p) \<union> fst ` set (p_log p)) = {} \<Longrightarrow>
   poolInvariant (pump w env q p)"
proof (induction q arbitrary: p)
  case Nil
  then show ?case by (simp add: poolInvariant_def)
next
  case (Cons i q)
  show ?case
  proof (cases "length (p_running p) < w")
    case False
    then show ?thesis using Cons.prems by (simp add: poolInvariant_def)
  next
    case True
    obtain r effs where g: "gen_start env i (stopFlag (p_store p)) = (r, effs)" by fastforce
    have dq: "distinct q" and iq: "i \<notin> set q" using Cons.prems(1) by auto
    have old: "set q \<inter> (fst ` set (p_running p) \<union> fst ` set (p_log p)) = {}"
      using Cons.prems(2) by auto
    have lg: "set q \<inter> fst ` set (p_log (perform i effs p)) = {}"
      using keys_perform_log[of i effs p] old iq by blast
    show ?thesis
    proof (cases r)
      case None
      have "set q \<inter> (fst ` set (p_running (perform i effs p))
                        \<union> fst ` set (p_log (perform i effs p))) = {}"
        using lg old by (auto simp: perform_fields(1))
      then have "poolInvariant (pump w env q (perform i effs p))" using dq Cons.IH by blast
      then show ?thesis using True g None by simp
    next
      case (Some ph)
      let ?p' = "(perform i effs p)\<lparr>p_running := p_running p @ [(i, ph)]\<rparr>"
      have "fst ` set (p_running ?p') = insert i (fst ` set (p_running p))" by auto
      moreover have "p_log ?p' = p_log (perform i effs p)" by simp
      ultimately have "set q \<inter> (fst ` set (p_running ?p') \<union> fst ` set (p_log ?p')) = {}"
        using lg old iq by auto
      then have "poolInvariant (pump w env q ?p')" using dq Cons.IH by blast
      then show ?thesis using True g Some by simp
    qed
  qed
qed

lemma resume_invariant: "poolInvariant p \<Longrightarrow> poolInvariant (resume p)"
  by (simp add: poolInvariant_def resume_fields)

lemma pool_init_invariant: "poolInvariant (pool_init w env b s)"
proof (cases "hasProject env")
  case False
  then show ?thesis by (simp add: pool_init_def poolInvariant_def)
next
  case True
  show ?thesis using True
    by (auto simp: pool_init_def Let_def intro!: resume_invariant pump_invariant)
qed

lemma pool_step_invariant:
  assumes inv: "poolInvariant p"
  shows "poolInvariant (pool_step w env ev p)"
proof (cases ev)
  case Stop
  then show ?thesis using inv by (simp add: pool_step_def poolInvariant_def)
next
  case (Settle i)
  show ?thesis
  proof (cases "map_of (p_running p) i")
    case None
    then show ?thesis using inv Settle by (simp add: pool_step_def)
  next
    case (Some ph)
    have ir: "i \<in> fst ` set (p_running p)" using Some by (rule map_of_running_fst)
    have dq: "distinct (p_queue p)"
      and dj: "set (p_queue p) \<inter> (fst ` set (p_running p) \<union> fst ` set (p_log p)) = {}"
      using inv by (simp_all add: poolInvariant_def)
    have iq: "i \<notin> set (p_queue p)" using ir dj by blast
    obtain r effs where c: "continueTask env i ph = (r, effs)" by fastforce
    let ?p0 = "perform i effs (noteContent env i ph p)"
    have lg: "set (p_queue p) \<inter> fst ` set (p_log ?p0) = {}"
      using keys_perform_log[of i effs "noteContent env i ph p"] dj iq
      by (auto simp: noteContent_fields)
    show ?thesis
    proof (cases r)
      case (Inr ph')
      let ?run = "map (\<lambda>t. if fst t = i then (i, ph') else t) (p_running p)"
      have "map fst ?run = map fst (p_running p)" by (induction "p_running p") auto
      then have k: "fst ` set ?run = fst ` set (p_running p)" by (metis list.set_map)
      have "poolInvariant (?p0\<lparr>p_running := ?run\<rparr>)"
        unfolding poolInvariant_def using dq dj lg k
        by (simp add: perform_fields(2) noteContent_fields(2)) blast
      then show ?thesis using Settle Some c Inr
        by (simp add: pool_step_def resume_invariant)
    next
      case (Inl res)
      let ?p1 = "?p0\<lparr>p_running := filter (\<lambda>t. fst t \<noteq> i) (p_running p)\<rparr>"
      have q1: "p_queue ?p1 = p_queue p" by (simp add: perform_fields noteContent_fields)
      have run: "fst ` set (filter (\<lambda>t. fst t \<noteq> i) (p_running p)) \<subseteq> fst ` set (p_running p)"
        by (rule image_mono) simp
      have "set (p_queue p) \<inter> (fst ` set (p_running (finishTask res ?p1))
                                   \<union> fst ` set (p_log (finishTask res ?p1))) = {}"
        using lg dj run by (simp add: finishTask_fields) blast
      then have "poolInvariant (pump w env (p_queue p) (finishTask res ?p1))"
        using dq by (intro pump_invariant)
      then show ?thesis using Settle Some c Inl q1
        by (simp add: pool_step_def Let_def resume_invariant)
    qed
  qed
qed



lemma generateEmbeddings_append:
  "generateEmbeddings env b (xs @ ys) s
     = pool_run concurrencyLimit env ys (generateEmbeddings env b xs s)"
  by (simp add: generateEmbeddings_def pool_run_append)



subsection \<open>The pool performs the effects of its tasks only\<close>

lemma gen_start_None: "gen_start env i stop = (None, effs) \<Longrightarrow> effs = []"
  using gen_start_cases[of env i stop] by auto

lemma gen_start_Some:
  assumes "gen_start env i stop = (Some ph, effs)"
  shows "ph \<in> set (taskPhases env i)
         \<and> set effs \<subseteq> set (snd (generateEmbeddingForFile env i False))"
proof -
  have ns: "\<not> stop" and g: "gen_start env i stop =
      (Some (AwaitContent (getFilePath env i) (prevChecksumOf env (getFilePath env i))),
       [SetState (Loading (i + 1) (numFiles env) (last (splitOn CHR ''/'' (getFilePath env i)))),
        FetchContent])"
    using gen_start_cases[of env i stop] assms by auto
  then have g': "gen_start env i False = (Some ph, effs)" using assms by simp
  have ph: "ph = AwaitContent (getFilePath env i) (prevChecksumOf env (getFilePath env i))"
    using g assms by simp
  have "ph \<in> set (taskPhases env i)" using g' ph by (simp add: taskPhases_def)
  moreover have "set effs \<subseteq> set (snd (generateEmbeddingForFile env i False))"
    using g' ph by (auto simp: generateEmbeddingForFile_def split: prod.splits sum.splits)
  ultimately show ?thesis by blast
qed

lemma continueTask_phases:
  assumes "ph \<in> set (taskPhases env i)" and "continueTask env i ph = (r, effs)"
  shows "set effs \<subseteq> set (snd (generateEmbeddingForFile env i False))
         \<and> (\<forall>ph'. r = Inr ph' \<longrightarrow> ph' \<in> set (taskPhases env i))"
proof -
  define p where "p = getFilePath env i"
  define prev where "prev = prevChecksumOf env (getFilePath env i)"
  define e1 where "e1 = [SetState (Loading (i + 1) (numFiles env) (last (splitOn CHR ''/'' (getFilePath env i)))),
        FetchContent]"
  have "gen_start env i False \<noteq> (None, [])" using assms(1) by (auto simp: taskPhases_def)
  then have s: "gen_start env i False = (Some (AwaitContent p prev), e1)"
    using gen_start_cases[of env i False] by (simp add: p_def prev_def e1_def)
  obtain c e2 where o: "gen_on_content env p prev (getFileNameContent env i) = (c, e2)"
    by fastforce
  show ?thesis
  proof (cases ph)
    case (AwaitContent p' prev')
    then have "p' = p" "prev' = prev" using assms(1) s o
      by (auto simp: taskPhases_def split: sum.splits)
    then show ?thesis using assms(2) AwaitContent s o
      by (auto simp: continueTask_def generateEmbeddingForFile_def taskPhases_def
          split: sum.splits prod.splits)
  next
    case (AwaitProcess f)
    then have c: "c = Inr f" using assms(1) s o
      by (auto simp: taskPhases_def split: sum.splits)
    then show ?thesis using assms(2) AwaitProcess s o
      by (auto simp: continueTask_def generateEmbeddingForFile_def split: sum.splits prod.splits)
  qed
qed

lemma tasksInvariant_perform:
  "tasksInvariant env p \<Longrightarrow> set effs \<subseteq> set (snd (generateEmbeddingForFile env i False)) \<Longrightarrow>
   tasksInvariant env (perform i effs p)"
  by (auto simp: tasksInvariant_def perform_fields list_all_iff)

lemma tasksInvariant_cong:
  "tasksInvariant env p \<Longrightarrow> p_running q = p_running p \<Longrightarrow> p_log q = p_log p \<Longrightarrow>
   tasksInvariant env q"
  by (simp add: tasksInvariant_def)

lemma pump_tasksInvariant:
  "tasksInvariant env p \<Longrightarrow> tasksInvariant env (pump w env q p)"
proof (induction q arbitrary: p)
  case Nil
  then show ?case by (simp add: tasksInvariant_def)
next
  case (Cons i q)
  show ?case
  proof (cases "length (p_running p) < w")
    case False
    then show ?thesis using Cons.prems by (simp add: tasksInvariant_def)
  next
    case True
    obtain r effs where g: "gen_start env i (stopFlag (p_store p)) = (r, effs)" by fastforce
    show ?thesis
    proof (cases r)
      case None
      then have "effs = []" using g gen_start_None by blast
      then show ?thesis using True g None Cons by (simp add: perform_Nil)
    next
      case (Some ph)
      note k = gen_start_Some[OF g[unfolded Some]]
      have "tasksInvariant env (perform i effs p)"
        using Cons.prems k by (intro tasksInvariant_perform) blast+
      then have "tasksInvariant env ((perform i effs p)\<lparr>p_running := p_running p @ [(i, ph)]\<rparr>)"
        using k by (simp add: tasksInvariant_def perform_fields)
      then show ?thesis using True g Some Cons.IH by simp
    qed
  qed
qed

lemma map_of_running_in: "map_of (p_running p) i = Some ph \<Longrightarrow> (i, ph) \<in> set (p_running p)"
  by (rule map_of_SomeD)

lemma pool_step_tasksInvariant:
  assumes inv: "tasksInvariant env p"
  shows "tasksInvariant env (pool_step w env ev p)"
proof (cases ev)
  case Stop
  then show ?thesis using inv by (simp add: pool_step_def tasksInvariant_def)
next
  case (Settle i)
  show ?thesis
  proof (cases "map_of (p_running p) i")
    case None
    then show ?thesis using inv Settle by (simp add: pool_step_def)
  next
    case (Some ph)
    have "(i, ph) \<in> set (p_running p)" using Some by (rule map_of_running_in)
    then have ph: "ph \<in> set (taskPhases env i)"
      using inv by (auto simp: tasksInvariant_def list_all_iff)
    obtain r effs where c: "continueTask env i ph = (r, effs)" by fastforce
    note k = continueTask_phases[OF ph c]
    have i0: "tasksInvariant env (noteContent env i ph p)"
      using inv by (rule tasksInvariant_cong) (simp_all add: noteContent_fields)
    have i1: "tasksInvariant env (perform i effs (noteContent env i ph p))"
      using i0 k by (intro tasksInvariant_perform) blast+
    show ?thesis
    proof (cases r)
      case (Inr ph')
      then have "ph' \<in> set (taskPhases env i)" using k by blast
      then have "tasksInvariant env ((perform i effs (noteContent env i ph p))
          \<lparr>p_running := map (\<lambda>t. if fst t = i then (i, ph') else t) (p_running p)\<rparr>)"
        using i1 by (auto simp: tasksInvariant_def list_all_iff perform_fields noteContent_fields)
      then have "tasksInvariant env (resume ((perform i effs (noteContent env i ph p))
          \<lparr>p_running := map (\<lambda>t. if fst t = i then (i, ph') else t) (p_running p)\<rparr>))"
        by (rule tasksInvariant_cong) (simp_all add: resume_fields)
      then show ?thesis using Settle Some c Inr by (simp add: pool_step_def)
    next
      case (Inl res)
      let ?p1 = "(perform i effs (noteContent env i ph p))
                   \<lparr>p_running := filter (\<lambda>t. fst t \<noteq> i) (p_running p)\<rparr>"
      have "tasksInvariant env ?p1"
        using i1 by (auto simp: tasksInvariant_def list_all_iff perform_fields noteContent_fields)
      then have "tasksInvariant env (finishTask res ?p1)"
        by (rule tasksInvariant_cong) (simp_all add: finishTask_fields)
      then have "tasksInvariant env (pump w env (p_queue ?p1) (finishTask res ?p1))"
        by (rule pump_tasksInvariant)
      then have "tasksInvariant env (resume (pump w env (p_queue ?p1) (finishTask res ?p1)))"
        by (rule tasksInvariant_cong) (simp_all add: resume_fields)
      then show ?thesis using Settle Some c Inl by (simp add: pool_step_def Let_def)
    qed
  qed
qed

lemma pool_init_tasksInvariant: "tasksInvariant env (pool_init w env b s)"
proof (cases "hasProject env")
  case False
  then show ?thesis by (simp add: pool_init_def tasksInvariant_def)
next
  case True
  let ?p0 = "\<lambda>st. \<lparr>p_store = st, p_log = [], p_queue = [], p_running = [], p_rejected = None,
                 p_returned = False, p_content = []\<rparr>"
  have "\<And>st. tasksInvariant env (resume (pump w env [0..<numFiles env] (?p0 st)))"
    by (rule tasksInvariant_cong[OF pump_tasksInvariant]) (simp_all add: tasksInvariant_def resume_fields)
  then show ?thesis using True by (simp add: pool_init_def Let_def)
qed

lemma pool_run_tasksInvariant:
  "tasksInvariant env p \<Longrightarrow> tasksInvariant env (pool_run w env evs p)"
  by (induction evs arbitrary: p)
     (simp_all add: pool_run_Nil pool_run_Cons pool_step_tasksInvariant)

lemma logged_effects:
  assumes "(i, e) \<in> set (p_log (generateEmbeddings env b evs s))"
  shows "e \<in> set (snd (generateEmbeddingForFile env i False))"
proof -
  have "tasksInvariant env (generateEmbeddings env b evs s)"
    unfolding generateEmbeddings_def
    by (rule pool_run_tasksInvariant, rule pool_init_tasksInvariant)
  then show ?thesis using assms by (auto simp: tasksInvariant_def list_all_iff)
qed

lemma no_submissions_iff: "submissions effs = [] \<longleftrightarrow> (\<forall>f. Submit f \<notin> set effs)"
  by (induction effs) (auto simp: submissions_def split: effect.splits)

lemma no_recordedErrors_iff: "recordedErrors effs = [] \<longleftrightarrow> (\<forall>m. AppendError m \<notin> set effs)"
  by (induction effs) (auto simp: recordedErrors_def split: effect.splits)

subsection \<open>Unchanged content\<close>

text \<open>
  Claim C2. Take an item whose content is delivered and whose current checksum (the
  SHA-256 of the content, here any function \<open>createChecksum\<close>) equals the checksum stored
  for its path, that is the checksum of the first stored row with that path. Then the
  task of the item submits nothing and records no error, and its result is a plain
  return; and in every run of the pool of the sync pass, the log holds no submission
  and no recorded error for that item.
\<close>

theorem unchanged_file_is_skipped:
  assumes c: "getFileNameContent env index = Inr (Some (nm, cont))"
      and e: "prevChecksumOf env (getFilePath env index) = Some (createChecksum env cont)"
  shows "submissions (snd (generateEmbeddingForFile env index stop)) = []
         \<and> recordedErrors (snd (generateEmbeddingForFile env index stop)) = []
         \<and> fst (generateEmbeddingForFile env index stop) = Inr ()
         \<and> (\<forall>f. (index, Submit f) \<notin> set (p_log (generateEmbeddings env b evs s)))
         \<and> (\<forall>m. (index, AppendError m) \<notin> set (p_log (generateEmbeddings env b evs s)))"
proof -
  note u = unchanged_file_effects[OF c e]
  have a: "\<forall>f. Submit f \<notin> set (snd (generateEmbeddingForFile env index False))"
    using u[of False] no_submissions_iff by blast
  have b: "\<forall>m. AppendError m \<notin> set (snd (generateEmbeddingForFile env index False))"
    using u[of False] no_recordedErrors_iff by blast
  have "\<forall>f. (index, Submit f) \<notin> set (p_log (generateEmbeddings env b evs s))"
    using a logged_effects by blast
  moreover have "\<forall>m. (index, AppendError m) \<notin> set (p_log (generateEmbeddings env b evs s))"
    using b logged_effects by blast
  ultimately show ?thesis using u[of stop] by blast
qed

lemma no_submit_no_error_list:
  "(\<forall>f. (k, Submit f) \<notin> set xs) \<Longrightarrow> (\<forall>m. (k, AppendError m) \<notin> set xs) \<Longrightarrow>
   list_all (\<lambda>t. case snd t of Submit f \<Rightarrow> fst t \<noteq> k | AppendError m \<Rightarrow> fst t \<noteq> k | _ \<Rightarrow> True) xs"
  by (induction xs) (auto split: effect.splits)

theorem unchanged_file_is_skipped_witness:
  "submissions (snd (generateEmbeddingForFile sixFilesSeen 1 False)) = []
   \<and> recordedErrors (snd (generateEmbeddingForFile sixFilesSeen 1 False)) = []
   \<and> list_all (\<lambda>t. case snd t of Submit f \<Rightarrow> fst t \<noteq> 1 | AppendError m \<Rightarrow> fst t \<noteq> 1 | _ \<Rightarrow> True)
        (p_log (generateEmbeddings sixFilesSeen False
                  [Settle 0, Settle 1, Settle 2, Settle 0, Settle 2, Settle 5, Settle 5] idleStore))
   \<and> map fst (submittedBy (generateEmbeddings sixFilesSeen False
                  [Settle 0, Settle 1, Settle 2, Settle 0, Settle 2, Settle 5, Settle 5] idleStore))
        = [0, 2, 5]"
proof -
  let ?P = "generateEmbeddings sixFilesSeen False
                  [Settle 0, Settle 1, Settle 2, Settle 0, Settle 2, Settle 5, Settle 5] idleStore"
  have c: "getFileNameContent sixFilesSeen 1 = Inr (Some (''n'', ''text''))" by code_simp
  have e: "prevChecksumOf sixFilesSeen (getFilePath sixFilesSeen 1)
             = Some (createChecksum sixFilesSeen ''text'')" by code_simp
  note T = unchanged_file_is_skipped[OF c e, of False False
      "[Settle 0, Settle 1, Settle 2, Settle 0, Settle 2, Settle 5, Settle 5]" idleStore]
  have a: "submissions (snd (generateEmbeddingForFile sixFilesSeen 1 False)) = []"
    and b: "recordedErrors (snd (generateEmbeddingForFile sixFilesSeen 1 False)) = []"
    and l1: "\<forall>f. (1, Submit f) \<notin> set (p_log ?P)"
    and l2: "\<forall>m. (1, AppendError m) \<notin> set (p_log ?P)"
    using T by blast+
  have l: "list_all (\<lambda>t. case snd t of Submit f \<Rightarrow> fst t \<noteq> 1 | AppendError m \<Rightarrow> fst t \<noteq> 1 | _ \<Rightarrow> True)
        (p_log ?P)"
    using l1 l2 by (rule no_submit_no_error_list)
  have d: "map fst (submittedBy ?P) = [0, 2, 5]" by code_simp
  show ?thesis using a b l d by (intro conjI)
qed

subsection \<open>The callback for a processed file\<close>

text \<open>
  Claim C7, as the source has it. The task of an item makes at most one submission, and
  it calls \<open>onFileProcessed\<close> exactly as often as it submits: once when a submission is
  made, whether the processor accepts the file, reports the quota error or fails in any
  other way, and never otherwise. A submission is made exactly when the stop flag is
  not set as the task starts, the path passes the filter, the content fetch delivers a
  content, and the checksum of that content differs from the stored one. So the callback
  is not called for an item skipped by the path filter or by checksum equality, and
  neither for an item whose content fetch delivers nothing or fails, although such an
  item has reached the content fetch.
\<close>

theorem callback_once_per_submission:
  "length (submissions (snd (generateEmbeddingForFile env index stop))) \<le> 1
   \<and> callbacks (snd (generateEmbeddingForFile env index stop))
       = length (submissions (snd (generateEmbeddingForFile env index stop)))
   \<and> (submissions (snd (generateEmbeddingForFile env index stop)) \<noteq> [] \<longleftrightarrow>
        \<not> stop
        \<and> shouldIncludeFileWithPath (minimatch env) (newURL env) (getFilePath env index)
            (includeGlobs env) (excludeGlobs env) (isWebsite env)
        \<and> (\<exists>nm cont. getFileNameContent env index = Inr (Some (nm, cont))
              \<and> prevChecksumOf env (getFilePath env index) \<noteq> Some (createChecksum env cont)))"
proof -
  let ?g = "generateEmbeddingForFile env index stop"
  show ?thesis
  proof (cases "stop \<or> \<not> shouldIncludeFileWithPath (minimatch env) (newURL env) (getFilePath env index)
            (includeGlobs env) (excludeGlobs env) (isWebsite env)")
    case True
    then have "gen_start env index stop = (None, [])" by (auto simp: gen_start_def Let_def)
    then have "snd ?g = []" by (simp add: generateEmbeddingForFile_def)
    then show ?thesis using True by (auto simp: effect_counts)
  next
    case False
    then have s: "gen_start env index stop =
      (Some (AwaitContent (getFilePath env index) (prevChecksumOf env (getFilePath env index))),
       [SetState (Loading (index + 1) (numFiles env) (last (splitOn CHR ''/'' (getFilePath env index)))),
        FetchContent])"
      by (simp add: gen_start_def Let_def)
    show ?thesis
    proof (cases "getFileNameContent env index")
      case (Inl e)
      then show ?thesis using s False
        by (simp add: generateEmbeddingForFile_def gen_on_content_def effect_counts)
    next
      case (Inr oc)
      show ?thesis
      proof (cases oc)
        case None
        then show ?thesis using s False Inr
          by (simp add: generateEmbeddingForFile_def gen_on_content_def effect_counts)
      next
        case (Some nc)
        obtain nm cont where nc: "nc = (nm, cont)" by (cases nc)
        show ?thesis
        proof (cases "prevChecksumOf env (getFilePath env index) = Some (createChecksum env cont)")
          case True
          then show ?thesis using s False Inr Some nc
            by (simp add: generateEmbeddingForFile_def gen_on_content_def effect_counts)
        next
          case ne: False
          let ?f = "\<lparr>fd_path = getFilePath env index, fd_name = nm, fd_content = cont\<rparr>"
          obtain r e3 where p: "gen_on_processed env ?f (processFile env index ?f) = (r, e3)"
            by fastforce
          have c3: "callbacks e3 = 1" "submissions e3 = []"
            using gen_on_processed_callbacks[of env ?f "processFile env index ?f"]
              gen_on_processed_no_submit[of env ?f "processFile env index ?f"] p by simp_all
          have "snd ?g = [SetState (Loading (index + 1) (numFiles env) (last (splitOn CHR ''/'' (getFilePath env index)))),
              FetchContent, Submit ?f] @ e3"
            using s Inr Some nc ne p
            by (simp add: generateEmbeddingForFile_def gen_on_content_def Let_def)
          then show ?thesis using c3 False Inr Some nc ne
            by (simp add: effect_counts)
        qed
      qed
    qed
  qed
qed

theorem callback_once_per_submission_witness:
  "submissions (snd (generateEmbeddingForFile sixFiles 0 False)) = [fileOf ''a.md'']
   \<and> callbacks (snd (generateEmbeddingForFile sixFiles 0 False)) = 1
   \<and> submissions (snd (generateEmbeddingForFile sixFiles 1 False)) = [fileOf ''b.md'']
   \<and> callbacks (snd (generateEmbeddingForFile sixFiles 1 False)) = 1
   \<and> callbacks (snd (generateEmbeddingForFile sixFilesSeen 1 False)) = 0
   \<and> callbacks (snd (generateEmbeddingForFile onePageNoContent 0 False)) = 0"
proof -
  have s0: "submissions (snd (generateEmbeddingForFile sixFiles 0 False)) = [fileOf ''a.md'']"
    by code_simp
  have s1: "submissions (snd (generateEmbeddingForFile sixFiles 1 False)) = [fileOf ''b.md'']"
    by code_simp
  have s2: "submissions (snd (generateEmbeddingForFile sixFilesSeen 1 False)) = []" by code_simp
  have s3: "submissions (snd (generateEmbeddingForFile onePageNoContent 0 False)) = []" by code_simp
  show ?thesis
    using callback_once_per_submission[of sixFiles 0 False]
      callback_once_per_submission[of sixFiles 1 False]
      callback_once_per_submission[of sixFilesSeen 1 False]
      callback_once_per_submission[of onePageNoContent 0 False]
      s0 s1 s2 s3
    by simp
qed

text \<open>
  The claim as stated, that every item which reaches the content fetch has the callback
  called exactly once, fails for a page whose fetch delivers nothing: the page passes
  the filter, has no stored checksum, its content is requested, and the callback is
  never called.
\<close>

theorem callback_missing_content:
  "FetchContent \<in> set (snd (generateEmbeddingForFile onePageNoContent 0 False))
   \<and> shouldIncludeFileWithPath (minimatch onePageNoContent) (newURL onePageNoContent)
        (getFilePath onePageNoContent 0) (includeGlobs onePageNoContent)
        (excludeGlobs onePageNoContent) (isWebsite onePageNoContent)
   \<and> prevChecksumOf onePageNoContent (getFilePath onePageNoContent 0) = None
   \<and> getFileNameContent onePageNoContent 0 = Inr None
   \<and> callbacks (snd (generateEmbeddingForFile onePageNoContent 0 False)) = 0"
  by (simp add: generateEmbeddingForFile_def gen_start_def gen_on_content_def onePageNoContent_def
      sixFiles_def prevChecksumOf_def callbacks_def shouldIncludeFileWithPath_def websitePath_def urlHasPath_def getUrlPath_def startsWith_def endsWith_def includesStr_def isSupportedFileType_def getFileExtension_def SUPPORTED_EXTENSIONS_def matchesGlobs_def is_word_char_def Let_def)

subsection \<open>Cancellation\<close>
















subsection \<open>The quota error\<close>

lemma pump_keeps:
  "p_rejected (pump w env q p) = p_rejected p \<and> p_returned (pump w env q p) = p_returned p
   \<and> (\<exists>ext. p_log (pump w env q p) = p_log p @ ext)"
proof (induction q arbitrary: p)
  case Nil
  then show ?case by simp
next
  case (Cons i q)
  show ?case
  proof (cases "length (p_running p) < w")
    case False
    then show ?thesis by simp
  next
    case True
    obtain r effs where g: "gen_start env i (stopFlag (p_store p)) = (r, effs)" by fastforce
    show ?thesis
    proof (cases r)
      case None
      then show ?thesis using True g Cons.IH[of "perform i effs p"]
        by (auto simp: perform_fields)
    next
      case (Some ph)
      then show ?thesis using True g
          Cons.IH[of "(perform i effs p)\<lparr>p_running := p_running p @ [(i, ph)]\<rparr>"]
        by (auto simp: perform_fields)
    qed
  qed
qed

lemma resume_returned: "p_returned p \<Longrightarrow> resume p = p"
  by (simp add: resume_def)

lemma resume_rejected:
  "p_rejected p = Some e \<Longrightarrow>
   p_returned (resume p) \<and> (\<not> p_returned p \<longrightarrow> trainingState (p_store (resume p)) = Idle)"
  by (simp add: resume_def)

lemma rejected_returned_pump:
  "p_rejected p = None \<or> p_returned p \<Longrightarrow>
   p_rejected (resume (pump w env q p)) = None \<or> p_returned (resume (pump w env q p))"
  using pump_keeps[of w env q p] by (auto simp: resume_def)

lemma rejected_returned_step:
  assumes "p_rejected p = None \<or> p_returned p"
  shows "p_rejected (pool_step w env ev p) = None \<or> p_returned (pool_step w env ev p)"
proof (cases ev)
  case Stop
  then show ?thesis using assms by (simp add: pool_step_def)
next
  case (Settle i)
  show ?thesis
  proof (cases "map_of (p_running p) i")
    case None
    then show ?thesis using assms Settle by (simp add: pool_step_def)
  next
    case (Some ph)
    obtain r effs where c: "continueTask env i ph = (r, effs)" by fastforce
    show ?thesis
    proof (cases r)
      case (Inr ph')
      then show ?thesis using assms Settle Some c
        by (auto simp: pool_step_def resume_def perform_fields noteContent_fields)
    next
      case (Inl res)
      let ?p1 = "(perform i effs (noteContent env i ph p))
                   \<lparr>p_running := filter (\<lambda>t. fst t \<noteq> i) (p_running p)\<rparr>"
      let ?q = "pump w env (p_queue ?p1) (finishTask res ?p1)"
      have "pool_step w env ev p = resume ?q"
        using Settle Some c Inl by (simp add: pool_step_def Let_def)
      then show ?thesis by (simp add: resume_def split: option.splits)
    qed
  qed
qed

lemma rejected_returned_init: 
  "p_rejected (pool_init w env b s) = None \<or> p_returned (pool_init w env b s)"
  by (simp add: pool_init_def Let_def resume_def split: option.splits)

lemma rejected_returned_run:
  "p_rejected p = None \<or> p_returned p \<Longrightarrow>
   p_rejected (pool_run w env evs p) = None \<or> p_returned (pool_run w env evs p)"
  by (induction evs arbitrary: p) (simp_all add: pool_run_Nil pool_run_Cons rejected_returned_step)

lemma rejected_returned:
  "p_rejected (generateEmbeddings env b evs s) = None \<or> p_returned (generateEmbeddings env b evs s)"
  unfolding generateEmbeddings_def by (rule rejected_returned_run, rule rejected_returned_init)

lemma quota_step:
  assumes m: "map_of (p_running p) i = Some (AwaitProcess file)"
      and a: "processFile env i file = Inl e" and q: "isQuotaExceeded env e"
      and inv: "p_rejected p = None \<or> p_returned p"
  shows "(\<exists>ext. p_log (pool_step w env (Settle i) p)
             = p_log p @ [(i, QuotaToast), (i, FileProcessed), (i, SetState Idle)] @ ext)
     \<and> p_returned (pool_step w env (Settle i) p)
     \<and> (\<not> p_returned p \<longrightarrow>
          p_rejected (pool_step w env (Settle i) p) = Some e
          \<and> trainingState (p_store (pool_step w env (Settle i) p)) = Idle)"
proof -
  have c: "continueTask env i (AwaitProcess file)
             = (Inl (Inl e), [QuotaToast, FileProcessed, SetState Idle])"
    using a q by (simp add: continueTask_def gen_on_processed_def)
  let ?effs = "[QuotaToast, FileProcessed, SetState Idle]"
  let ?p1 = "(perform i ?effs (noteContent env i (AwaitProcess file) p))
               \<lparr>p_running := filter (\<lambda>t. fst t \<noteq> i) (p_running p)\<rparr>"
  let ?p2 = "finishTask (Inl e) ?p1"
  let ?q = "pump w env (p_queue ?p1) ?p2"
  have step: "pool_step w env (Settle i) p = resume ?q"
    using m c by (simp add: pool_step_def Let_def)
  note k = pump_keeps[of w env "p_queue ?p1" ?p2]
  have l2: "p_log ?p2 = p_log p @ [(i, QuotaToast), (i, FileProcessed), (i, SetState Idle)]"
    by (simp add: finishTask_fields perform_fields noteContent_fields)
  from k obtain ext where "p_log ?q = p_log ?p2 @ ext" by blast
  then have lg: "\<exists>ext. p_log (resume ?q)
             = p_log p @ [(i, QuotaToast), (i, FileProcessed), (i, SetState Idle)] @ ext"
    using l2 by (simp add: resume_fields)
  have rj: "p_rejected ?q \<noteq> None"
    using k by (simp add: finishTask_def perform_fields noteContent_fields split: option.splits)
  then obtain e' where e': "p_rejected ?q = Some e'" by blast
  have rt: "p_returned (resume ?q)" using resume_rejected[OF e'] by blast
  have fr: "\<not> p_returned p \<longrightarrow> p_rejected (resume ?q) = Some e
          \<and> trainingState (p_store (resume ?q)) = Idle"
  proof
    assume n: "\<not> p_returned p"
    then have "p_rejected p = None" using inv by blast
    then have "p_rejected ?p2 = Some e"
      by (simp add: finishTask_def perform_fields noteContent_fields)
    then have r: "p_rejected ?q = Some e" using k by simp
    have "\<not> p_returned ?q" using k n by (simp add: finishTask_fields perform_fields noteContent_fields)
    then show "p_rejected (resume ?q) = Some e \<and> trainingState (p_store (resume ?q)) = Idle"
      using resume_rejected[OF r] r by (simp add: resume_fields)
  qed
  show ?thesis unfolding step using lg rt fr by (intro conjI)
qed

text \<open>
  Claim C1, as the source has it. When the processor answers the submission of an item
  with the quota error (status 403 and the quota identifier), the task of the item
  shows the toast, calls \<open>onFileProcessed\<close> once, sets the training state to idle and
  rejects with that error. \<open>generateEmbeddings\<close> has then returned to its caller, and it
  returns normally: the rejection is caught and logged. If it had not returned before,
  \<open>Promise.all\<close> rejects with this error and the training state is idle when it returns.
  Nothing is said here about tasks that start or submit afterwards.
\<close>

theorem quota_failure_ends_the_pass:
  assumes "map_of (p_running (generateEmbeddings env b evs s)) i = Some (AwaitProcess file)"
      and "processFile env i file = Inl e"
      and "isQuotaExceeded env e"
  shows "gen_on_processed env file (Inl e) = (Inl e, [QuotaToast, FileProcessed, SetState Idle])
     \<and> (\<exists>ext. p_log (generateEmbeddings env b (evs @ [Settle i]) s)
            = p_log (generateEmbeddings env b evs s)
                @ [(i, QuotaToast), (i, FileProcessed), (i, SetState Idle)] @ ext)
     \<and> returnValue (generateEmbeddings env b (evs @ [Settle i]) s) = Some (Inr ())
     \<and> (\<not> p_returned (generateEmbeddings env b evs s) \<longrightarrow>
          p_rejected (generateEmbeddings env b (evs @ [Settle i]) s) = Some e
          \<and> trainingState (p_store (generateEmbeddings env b (evs @ [Settle i]) s)) = Idle)"
proof -
  have g: "gen_on_processed env file (Inl e) = (Inl e, [QuotaToast, FileProcessed, SetState Idle])"
    using assms(3) by (simp add: gen_on_processed_def)
  have s: "generateEmbeddings env b (evs @ [Settle i]) s
             = pool_step concurrencyLimit env (Settle i) (generateEmbeddings env b evs s)"
    by (simp add: generateEmbeddings_append pool_run_Cons pool_run_Nil)
  note k = quota_step[OF assms rejected_returned, of concurrencyLimit]
  show ?thesis unfolding s using g k by (simp add: returnValue_def)
qed

theorem quota_failure_ends_the_pass_witness:
  "p_log (generateEmbeddings sixFiles False ([Settle 0] @ [Settle 0]) idleStore)
     = p_log (generateEmbeddings sixFiles False [Settle 0] idleStore)
         @ [(0, QuotaToast), (0, FileProcessed), (0, SetState Idle),
            (5, SetState (Loading 6 6 ''f.md'')), (5, FetchContent)]
   \<and> returnValue (generateEmbeddings sixFiles False ([Settle 0] @ [Settle 0]) idleStore) = Some (Inr ())
   \<and> p_rejected (generateEmbeddings sixFiles False ([Settle 0] @ [Settle 0]) idleStore) = Some quotaError
   \<and> trainingState (p_store (generateEmbeddings sixFiles False ([Settle 0] @ [Settle 0]) idleStore)) = Idle"
proof -
  have m: "map_of (p_running (generateEmbeddings sixFiles False [Settle 0] idleStore)) 0
             = Some (AwaitProcess (fileOf ''a.md''))" by code_simp
  have a: "processFile sixFiles 0 (fileOf ''a.md'') = Inl quotaError" by code_simp
  have q: "isQuotaExceeded sixFiles quotaError" by code_simp
  have n: "\<not> p_returned (generateEmbeddings sixFiles False [Settle 0] idleStore)" by code_simp
  note T = quota_failure_ends_the_pass[OF m a q]
  have l: "p_log (generateEmbeddings sixFiles False ([Settle 0] @ [Settle 0]) idleStore)
     = p_log (generateEmbeddings sixFiles False [Settle 0] idleStore)
         @ [(0, QuotaToast), (0, FileProcessed), (0, SetState Idle),
            (5, SetState (Loading 6 6 ''f.md'')), (5, FetchContent)]" by code_simp
  show ?thesis using T n l by blast
qed

text \<open>
  The claim as stated fails on six files of which the first meets the quota error: after
  the failure the pool starts the task of the sixth file, which fetches its content and
  submits it, and the caller of \<open>generateEmbeddings\<close> gets a normal return, not the failure.
\<close>

theorem quota_failure_is_swallowed:
  "processFile sixFiles 0 (fileOf ''a.md'') = Inl quotaError
   \<and> isQuotaExceeded sixFiles quotaError
   \<and> p_log (generateEmbeddings sixFiles False [Settle 0, Settle 0, Settle 5] idleStore)
       = p_log (generateEmbeddings sixFiles False [] idleStore)
           @ [(0, Submit (fileOf ''a.md'')),
              (0, QuotaToast), (0, FileProcessed), (0, SetState Idle),
              (5, SetState (Loading 6 6 ''f.md'')), (5, FetchContent),
              (5, Submit (fileOf ''f.md''))]
   \<and> p_rejected (generateEmbeddings sixFiles False [Settle 0, Settle 0] idleStore) = Some quotaError
   \<and> returnValue (generateEmbeddings sixFiles False [Settle 0, Settle 0] idleStore) = Some (Inr ())"
  by code_simp

subsection \<open>Submissions of a pass\<close>

lemma submitted_of_effects:
  "concat (map (\<lambda>t. case snd t of Submit f \<Rightarrow> [(fst t, f)] | _ \<Rightarrow> []) (map (Pair i) effs))
     = map (Pair i) (submissions effs)"
  by (induction effs) (auto simp: submissions_def split: effect.splits)

lemma submittedBy_append_log:
  "p_log q = p_log p @ map (Pair i) effs \<Longrightarrow>
   submittedBy q = submittedBy p @ map (Pair i) (submissions effs)"
  using submitted_of_effects[of i effs] by (simp add: submittedBy_def)

lemma submittedBy_perform:
  "submittedBy (perform i effs p) = submittedBy p @ map (Pair i) (submissions effs)"
  by (rule submittedBy_append_log) (simp add: perform_fields)

lemma submittedBy_cong: "p_log q = p_log p \<Longrightarrow> submittedBy q = submittedBy p"
  by (simp add: submittedBy_def)

lemma submittedBy_keys: "fst ` set (submittedBy p) \<subseteq> fst ` set (p_log p)"
  by (force simp: submittedBy_def split: effect.splits)

lemma gen_start_no_submit: "submissions (snd (gen_start env i stop)) = []"
  using gen_start_cases[of env i stop] by (auto simp: submissions_def)

lemma gen_start_phase:
  "gen_start env i stop = (Some ph, effs) \<Longrightarrow> \<exists>p prev. ph = AwaitContent p prev"
  using gen_start_cases[of env i stop] by auto

lemma continueTask_submissions:
  "continueTask env i ph = (r, effs) \<Longrightarrow>
   (case ph of
      AwaitProcess f \<Rightarrow> submissions effs = [] \<and> (\<exists>res. r = Inl res)
    | AwaitContent p prev \<Rightarrow>
        (case r of Inl res \<Rightarrow> submissions effs = []
                 | Inr ph' \<Rightarrow> (\<exists>f. ph' = AwaitProcess f \<and> submissions effs = [f])))"
  by (cases ph)
     (auto simp: continueTask_def gen_on_content_def gen_on_processed_def submissions_def Let_def
           split: sum.splits option.splits prod.splits if_splits)

lemma submittedBy_simps:
  "submittedBy (p\<lparr>p_queue := q\<rparr>) = submittedBy p"
  "submittedBy (p\<lparr>p_running := r\<rparr>) = submittedBy p"
  "submittedBy (resume p) = submittedBy p"
  "submittedBy (finishTask res p) = submittedBy p"
  "submittedBy (noteContent env i ph p) = submittedBy p"
  by (simp_all add: submittedBy_def resume_fields finishTask_fields noteContent_fields)

lemma pump_submitInvariant:
  assumes "distinct q"
      and "set q \<inter> fst ` set (p_log p) = {}"
      and "list_all (\<lambda>i. i < numFiles env) q"
      and "submitInvariant env p"
  shows "submitInvariant env (pump w env q p)"
  using assms
proof (induction q arbitrary: p)
  case Nil
  then show ?case by (simp add: submitInvariant_def submittedBy_simps)
next
  case (Cons i q)
  have inv: "distinct (map fst (submittedBy p))"
    "fst ` set (filter (\<lambda>t. awaitsContent (snd t)) (p_running p))
        \<inter> fst ` set (submittedBy p) = {}"
    "list_all (\<lambda>t. fst t < numFiles env) (p_running p)"
    "list_all (\<lambda>t. fst t < numFiles env) (p_log p)"
    using Cons.prems(4) by (simp_all add: submitInvariant_def)
  show ?case
  proof (cases "length (p_running p) < w")
    case False
    then show ?thesis using Cons.prems inv by (simp add: submitInvariant_def submittedBy_simps)
  next
    case True
    obtain r effs where g: "gen_start env i (stopFlag (p_store p)) = (r, effs)" by fastforce
    have ns: "submissions effs = []" using gen_start_no_submit[of env i "stopFlag (p_store p)"] g by simp
    have il: "i \<notin> fst ` set (p_log p)" and iq: "i \<notin> set q" and dq: "distinct q"
      and ql: "set q \<inter> fst ` set (p_log p) = {}" and i_lt: "i < numFiles env"
      and q_lt: "list_all (\<lambda>i. i < numFiles env) q"
      using Cons.prems by auto
    have sb: "submittedBy (perform i effs p) = submittedBy p" using ns by (simp add: submittedBy_perform)
    have lk: "set q \<inter> fst ` set (p_log (perform i effs p)) = {}"
      using keys_perform_log[of i effs p] ql iq by blast
    have isub: "i \<notin> fst ` set (submittedBy p)" using il submittedBy_keys[of p] by blast
    have lg: "list_all (\<lambda>t. fst t < numFiles env) (p_log (perform i effs p))"
      using inv(4) i_lt by (simp add: perform_fields list_all_iff) auto
    show ?thesis
    proof (cases r)
      case None
      have "submitInvariant env (perform i effs p)"
        using Cons.prems(4) sb lg by (simp add: submitInvariant_def perform_fields)
      then have "submitInvariant env (pump w env q (perform i effs p))"
        using Cons.IH[OF dq lk q_lt] by blast
      then show ?thesis using True g None by simp
    next
      case (Some ph)
      let ?p' = "(perform i effs p)\<lparr>p_running := p_running p @ [(i, ph)]\<rparr>"
      obtain pa prev where ph: "ph = AwaitContent pa prev" using gen_start_phase g Some by blast
      have sb': "submittedBy ?p' = submittedBy p" using sb by (simp add: submittedBy_simps)
      have "submitInvariant env ?p'"
        unfolding submitInvariant_def sb'
        using inv isub i_lt lg Cons.prems(4) ph
        by (simp add: submitInvariant_def perform_fields)
      moreover have "set q \<inter> fst ` set (p_log ?p') = {}" using lk by simp
      ultimately have "submitInvariant env (pump w env q ?p')"
        using Cons.IH[OF dq _ q_lt] by blast
      then show ?thesis using True g Some by simp
    qed
  qed
qed

lemma submitInvariant_resume: "submitInvariant env p \<Longrightarrow> submitInvariant env (resume p)"
  by (simp add: submitInvariant_def resume_fields submittedBy_simps)

lemma pool_init_submitInvariant: "submitInvariant env (pool_init w env b s)"
proof (cases "hasProject env")
  case False
  then show ?thesis by (simp add: pool_init_def submitInvariant_def submittedBy_def)
next
  case True
  have "\<And>st. submitInvariant env (pump w env [0..<numFiles env]
      \<lparr>p_store = st, p_log = [], p_queue = [], p_running = [], p_rejected = None,
         p_returned = False, p_content = []\<rparr>)"
    by (rule pump_submitInvariant) (simp_all add: submitInvariant_def submittedBy_def list_all_iff)
  then show ?thesis using True by (simp add: pool_init_def Let_def submitInvariant_resume)
qed

lemma pool_step_submitInvariant:
  assumes s: "submitInvariant env p" and inv: "poolInvariant p"
  shows "submitInvariant env (pool_step w env ev p)"
proof (cases ev)
  case Stop
  then show ?thesis using s by (simp add: pool_step_def submitInvariant_def submittedBy_def)
next
  case (Settle i)
  show ?thesis
  proof (cases "map_of (p_running p) i")
    case None
    then show ?thesis using s Settle by (simp add: pool_step_def)
  next
    case (Some ph)
    have mem: "(i, ph) \<in> set (p_running p)" using Some by (rule map_of_SomeD)
    have ir: "i \<in> fst ` set (p_running p)" using Some by (rule map_of_running_fst)
    have dq: "distinct (p_queue p)"
      and dj: "set (p_queue p) \<inter> (fst ` set (p_running p) \<union> fst ` set (p_log p)) = {}"
      using inv by (simp_all add: poolInvariant_def)
    have iq: "i \<notin> set (p_queue p)" using ir dj by blast
    have sd: "distinct (map fst (submittedBy p))"
      and sa: "fst ` set (filter (\<lambda>t. awaitsContent (snd t)) (p_running p))
                 \<inter> fst ` set (submittedBy p) = {}"
      and sq: "list_all (\<lambda>i. i < numFiles env) (p_queue p)"
      and sr: "list_all (\<lambda>t. fst t < numFiles env) (p_running p)"
      and sl: "list_all (\<lambda>t. fst t < numFiles env) (p_log p)"
      using s by (simp_all add: submitInvariant_def)
    have i_lt: "i < numFiles env" using sr mem by (auto simp: list_all_iff)
    obtain r effs where c: "continueTask env i ph = (r, effs)" by fastforce
    note cs = continueTask_submissions[OF c]
    let ?p0 = "perform i effs (noteContent env i ph p)"
    have sb0: "submittedBy ?p0 = submittedBy p @ map (Pair i) (submissions effs)"
      by (simp add: submittedBy_perform submittedBy_simps)
    have lg0: "list_all (\<lambda>t. fst t < numFiles env) (p_log ?p0)"
      using sl i_lt by (simp add: perform_fields noteContent_fields list_all_iff) auto
    have lk0: "set (p_queue p) \<inter> fst ` set (p_log ?p0) = {}"
      using keys_perform_log[of i effs "noteContent env i ph p"] dj iq
      by (auto simp: noteContent_fields)
    have fresh: "awaitsContent ph \<Longrightarrow> i \<notin> fst ` set (submittedBy p)"
    proof -
      assume "awaitsContent ph"
      then have "(i, ph) \<in> set (filter (\<lambda>t. awaitsContent (snd t)) (p_running p))"
        using mem by simp
      then have "i \<in> fst ` set (filter (\<lambda>t. awaitsContent (snd t)) (p_running p))" by force
      then show ?thesis using sa by blast
    qed
    have d0: "distinct (map fst (submittedBy ?p0))"
    proof (cases ph)
      case (AwaitProcess f)
      then show ?thesis using cs sd sb0 by simp
    next
      case (AwaitContent pa prev)
      then have f: "i \<notin> fst ` set (submittedBy p)" using fresh by simp
      show ?thesis using cs AwaitContent sd sb0 f by (cases r) auto
    qed
    show ?thesis
    proof (cases r)
      case (Inr ph')
      let ?run = "map (\<lambda>t. if fst t = i then (i, ph') else t) (p_running p)"
      obtain f where ph': "ph' = AwaitProcess f" using cs Inr by (cases ph) auto
      have a: "fst ` set (filter (\<lambda>t. awaitsContent (snd t)) ?run)
                 \<subseteq> fst ` set (filter (\<lambda>t. awaitsContent (snd t)) (p_running p)) - {i}"
        using ph' by (auto simp: image_iff)
      have sub: "fst ` set (submittedBy ?p0) \<subseteq> insert i (fst ` set (submittedBy p))"
        unfolding sb0 by auto
      have b: "fst ` set (filter (\<lambda>t. awaitsContent (snd t)) ?run) \<inter> fst ` set (submittedBy ?p0) = {}"
        using a sub sa by blast
      have r: "list_all (\<lambda>t. fst t < numFiles env) ?run"
        using sr i_lt by (auto simp: list_all_iff)
      have "submitInvariant env (?p0\<lparr>p_running := ?run\<rparr>)"
        unfolding submitInvariant_def using d0 b r sq lg0
        by (simp add: submittedBy_simps perform_fields noteContent_fields)
      then show ?thesis using Settle Some c Inr
        by (simp add: pool_step_def submitInvariant_resume)
    next
      case (Inl res)
      let ?run = "filter (\<lambda>t. fst t \<noteq> i) (p_running p)"
      let ?p1 = "?p0\<lparr>p_running := ?run\<rparr>"
      have e: "submissions effs = []" using cs Inl by (cases ph) auto
      have a: "fst ` set (filter (\<lambda>t. awaitsContent (snd t)) ?run)
                 \<subseteq> fst ` set (filter (\<lambda>t. awaitsContent (snd t)) (p_running p))"
        by (rule image_mono) auto
      have b: "fst ` set (filter (\<lambda>t. awaitsContent (snd t)) ?run) \<inter> fst ` set (submittedBy ?p0) = {}"
        using a sa sb0 e by auto
      have r: "list_all (\<lambda>t. fst t < numFiles env) ?run" using sr by (auto simp: list_all_iff)
      have "submitInvariant env ?p1"
        unfolding submitInvariant_def using d0 b r sq lg0
        by (simp add: submittedBy_simps perform_fields noteContent_fields)
      then have s2: "submitInvariant env (finishTask res ?p1)"
        by (simp add: submitInvariant_def submittedBy_simps finishTask_fields)
      have q1: "p_queue ?p1 = p_queue p" by (simp add: perform_fields noteContent_fields)
      have "submitInvariant env (pump w env (p_queue p) (finishTask res ?p1))"
        using dq lk0 sq s2 by (intro pump_submitInvariant) (simp_all add: finishTask_fields)
      then show ?thesis using Settle Some c Inl q1
        by (simp add: pool_step_def Let_def submitInvariant_resume)
    qed
  qed
qed

lemma pool_run_submitInvariant:
  "submitInvariant env p \<Longrightarrow> poolInvariant p \<Longrightarrow> submitInvariant env (pool_run w env evs p)"
  by (induction evs arbitrary: p)
     (simp_all add: pool_run_Nil pool_run_Cons pool_step_submitInvariant pool_step_invariant)

lemma generateEmbeddings_submitInvariant: "submitInvariant env (generateEmbeddings env b evs s)"
  unfolding generateEmbeddings_def
  by (rule pool_run_submitInvariant, rule pool_init_submitInvariant, rule pool_init_invariant)

lemma submitted_count:
  "length (submittedBy (generateEmbeddings env b evs s)) \<le> numFiles env"
proof -
  let ?P = "generateEmbeddings env b evs s"
  have inv: "submitInvariant env ?P" by (rule generateEmbeddings_submitInvariant)
  then have d: "distinct (map fst (submittedBy ?P))" by (simp add: submitInvariant_def)
  have "fst ` set (submittedBy ?P) \<subseteq> fst ` set (p_log ?P)" by (rule submittedBy_keys)
  moreover have "fst ` set (p_log ?P) \<subseteq> {..<numFiles env}"
    using inv by (auto simp: submitInvariant_def list_all_iff)
  ultimately have "set (map fst (submittedBy ?P)) \<subseteq> {..<numFiles env}" by auto
  then have "card (set (map fst (submittedBy ?P))) \<le> card {..<numFiles env}"
    by (intro card_mono) auto
  then show ?thesis using d distinct_card[of "map fst (submittedBy ?P)"] by simp
qed

lemma submitted_effect: "(i, f) \<in> set (submittedBy p) \<Longrightarrow> (i, Submit f) \<in> set (p_log p)"
  by (auto simp: submittedBy_def split: effect.splits)

lemma submit_path:
  "Submit f \<in> set (snd (generateEmbeddingForFile env i stop)) \<Longrightarrow> fd_path f = getFilePath env i"
  using gen_start_cases[of env i stop]
  by (auto simp: generateEmbeddingForFile_def gen_on_content_def gen_on_processed_def Let_def
      split: sum.splits option.splits prod.splits if_splits)

lemma submitted_paths:
  assumes "(i, f) \<in> set (submittedBy (generateEmbeddings env b evs s))"
  shows "i < numFiles env \<and> fd_path f = getFilePath env i"
proof -
  let ?P = "generateEmbeddings env b evs s"
  have l: "(i, Submit f) \<in> set (p_log ?P)" using assms by (rule submitted_effect)
  have "submitInvariant env ?P" by (rule generateEmbeddings_submitInvariant)
  then have "i < numFiles env" using l by (auto simp: submitInvariant_def list_all_iff)
  moreover have "fd_path f = getFilePath env i"
    using logged_effects[OF l] by (rule submit_path)
  ultimately show ?thesis by blast
qed

subsection \<open>The crawl loop\<close>

lemma roundsFresh_append:
  "roundsFresh seen (rs @ [r]) = (roundsFresh seen rs \<and> set r \<inter> set (seen @ concat rs) = {})"
  by (induction rs arbitrary: seen) auto

lemma crawl_fresh:
  "crawl fuel env pass baseUrl processed frontier rounds st = Some (processed', rounds', st') \<Longrightarrow>
   set frontier \<inter> set processed = {} \<Longrightarrow>
   \<exists>new. rounds' = rounds @ new \<and> roundsFresh processed new"
proof (induction fuel arbitrary: processed frontier rounds st)
  case 0
  then show ?case by (auto split: if_splits)
next
  case (Suc fuel)
  show ?case
  proof (cases "frontier = []")
    case True
    then show ?thesis using Suc.prems by auto
  next
    case False
    obtain r st1 where p: "pass frontier st = Some (r, st1)"
      using Suc.prems(1) False by (cases "pass frontier st") auto
    show ?thesis
    proof (cases r)
      case (Inl e)
      then have "rounds' = rounds @ [frontier]" using Suc.prems(1) False p by simp
      then show ?thesis using Suc.prems(2) by (intro exI[of _ "[frontier]"]) auto
    next
      case (Inr content)
      let ?processed = "processed @ frontier"
      let ?frontier = "filter (\<lambda>link. link \<notin> set ?processed) (discoverLinks env baseUrl content)"
      have c: "crawl fuel env pass baseUrl ?processed ?frontier (rounds @ [frontier]) st1
                 = Some (processed', rounds', st')"
        using Suc.prems(1) False p Inr by (simp add: Let_def)
      have d: "set ?frontier \<inter> set ?processed = {}" by auto
      from Suc.IH[OF c d] obtain new where
        n: "rounds' = (rounds @ [frontier]) @ new" "roundsFresh ?processed new" by blast
      have "rounds' = rounds @ (frontier # new)" using n(1) by simp
      moreover have "roundsFresh processed (frontier # new)" using n(2) Suc.prems(2) by simp
      ultimately show ?thesis by blast
    qed
  qed
qed

lemma crawl_returns:
  assumes fin: "finite V"
      and disc: "\<And>content. set (discoverLinks env baseUrl content) \<subseteq> V"
      and tot: "\<And>urls st. pass urls st \<noteq> None"
  shows "set frontier \<subseteq> V - set processed \<Longrightarrow> card (V - set processed) \<le> fuel \<Longrightarrow>
         crawl fuel env pass baseUrl processed frontier rounds st \<noteq> None"
proof (induction fuel arbitrary: processed frontier rounds st)
  case 0
  then have e: "V - set processed = {}" using fin by simp
  have "set frontier \<subseteq> {}" using "0.prems"(1) unfolding e .
  then have "frontier = []" by simp
  then show ?case by simp
next
  case (Suc fuel)
  show ?case
  proof (cases "frontier = []")
    case True
    then show ?thesis by simp
  next
    case False
    obtain r st1 where p: "pass frontier st = Some (r, st1)"
      using tot[of frontier st] by (cases "pass frontier st") auto
    show ?thesis
    proof (cases r)
      case (Inl e)
      then show ?thesis using False p by simp
    next
      case (Inr content)
      let ?processed = "processed @ frontier"
      let ?frontier = "filter (\<lambda>link. link \<notin> set ?processed) (discoverLinks env baseUrl content)"
      have a: "set ?frontier \<subseteq> V - set ?processed" using disc[of content] by auto
      obtain x where x: "x \<in> set frontier" using False by (cases frontier) auto
      then have "x \<in> V - set processed" "x \<notin> V - set ?processed" using Suc.prems(1) by auto
      then have "V - set ?processed \<subset> V - set processed" by auto
      then have "card (V - set ?processed) < card (V - set processed)"
        using fin by (intro psubset_card_mono) auto
      then have b: "card (V - set ?processed) \<le> fuel" using Suc.prems(2) by simp
      have "crawl fuel env pass baseUrl ?processed ?frontier (rounds @ [frontier]) st1 \<noteq> None"
        using Suc.IH[OF a b] .
      then show ?thesis using False p Inr by (simp add: Let_def)
    qed
  qed
qed

lemma crawl_from_root_returns:
  assumes fin: "finite V"
      and disc: "\<And>content. set (discoverLinks env baseUrl content) \<subseteq> V"
      and tot: "\<And>urls st. pass urls st \<noteq> None"
  shows "crawl (Suc (card V)) env pass baseUrl [] [url] [] st \<noteq> None"
proof -
  obtain r st1 where p: "pass [url] st = Some (r, st1)"
    using tot[of "[url]" st] by (cases "pass [url] st") auto
  show ?thesis
  proof (cases r)
    case (Inl e)
    then show ?thesis using p by simp
  next
    case (Inr content)
    let ?frontier = "filter (\<lambda>link. link \<notin> set [url]) (discoverLinks env baseUrl content)"
    have a: "set ?frontier \<subseteq> V - set [url]" using disc[of content] by auto
    have b: "card (V - set [url]) \<le> card V" using fin by (intro card_mono) auto
    have "crawl (card V) env pass baseUrl [url] ?frontier [[url]] st1 \<noteq> None"
      using crawl_returns[OF fin disc tot a b] .
    then show ?thesis using p Inr by (simp add: Let_def)
  qed
qed

subsection \<open>Sitemap mode\<close>

lemma websiteSyncEnv_fields:
  "numFiles (websiteSyncEnv senv fetch urls) = length urls"
  "getFilePath (websiteSyncEnv senv fetch urls) = (\<lambda>i. urls ! i)"
  by (simp_all add: websiteSyncEnv_def)

text \<open>
  Claim C9. When the normalized URL of a website source is a sitemap URL and the sitemap
  is read, \<open>_trainSource\<close> makes exactly one pass, over the first ten URLs of the sitemap
  (all of them when there are fewer), and discovers no links: whenever it returns, the
  list of candidate lists handed to a pass is that single list, and it returns exactly
  when that pass returns. Every run of the pool over these candidates makes at most
  ten submissions, and each submitted path is the sitemap URL of its index, which is
  below ten. So a sitemap of fifteen URLs yields at most ten ingested pages.
\<close>

theorem sitemap_mode_takes_ten:
  assumes sm: "isSitemapUrl env (toNormalizedUrl (w_newURL env) url False)"
      and fs: "fetchSitemapUrls env (toNormalizedUrl (w_newURL env) url False) = Inr sitemapUrls"
  shows "(\<forall>rounds msgs st'. trainSourceWebsite fuel env pass url st = Some (rounds, msgs, st') \<longrightarrow>
            rounds = [take 10 sitemapUrls])
     \<and> (trainSourceWebsite fuel env pass url st = None \<longleftrightarrow> pass (take 10 sitemapUrls) st = None)
     \<and> length (take 10 sitemapUrls) \<le> 10
     \<and> length (submittedBy (generateEmbeddings (websiteSyncEnv senv fetch (take 10 sitemapUrls))
                                b evs s)) \<le> 10
     \<and> (\<forall>t \<in> set (submittedBy (generateEmbeddings (websiteSyncEnv senv fetch (take 10 sitemapUrls))
                                   b evs s)).
           fst t < 10 \<and> fst t < length sitemapUrls \<and> fd_path (snd t) = sitemapUrls ! fst t)"
proof -
  let ?urls = "take 10 sitemapUrls"
  let ?P = "generateEmbeddings (websiteSyncEnv senv fetch ?urls) b evs s"
  let ?sl = "js_slice sitemapUrls 0 10"
  have e: "?sl = ?urls" by (simp add: js_slice_def)
  have t: "trainSourceWebsite fuel env pass url st =
      (case pass ?sl st of
         None \<Rightarrow> None
       | Some (Inl e, st') \<Rightarrow>
           Some ([?sl], [websiteErrorMessage env
              (toNormalizedOrigin (w_removeSchema env) (toNormalizedUrl (w_newURL env) url False) False) e], st')
       | Some (Inr c, st') \<Rightarrow> Some ([?sl], [], st'))"
    using sm fs by (simp add: trainSourceWebsite_def Let_def)
  have "\<forall>rounds msgs st'. trainSourceWebsite fuel env pass url st = Some (rounds, msgs, st') \<longrightarrow>
            rounds = [?sl]"
    unfolding t by (auto split: option.splits sum.splits prod.splits)
  then have c1: "\<forall>rounds msgs st'. trainSourceWebsite fuel env pass url st = Some (rounds, msgs, st') \<longrightarrow>
            rounds = [?urls]"
    unfolding e .
  have "trainSourceWebsite fuel env pass url st = None \<longleftrightarrow> pass ?sl st = None"
    unfolding t by (auto split: option.splits sum.splits prod.splits)
  then have c2: "trainSourceWebsite fuel env pass url st = None \<longleftrightarrow> pass ?urls st = None"
    unfolding e .
  have c3: "length ?urls \<le> 10" by simp
  have "length (submittedBy ?P) \<le> numFiles (websiteSyncEnv senv fetch ?urls)"
    by (rule submitted_count)
  then have c4: "length (submittedBy ?P) \<le> 10" by (simp add: websiteSyncEnv_fields)
  have c5: "\<forall>t \<in> set (submittedBy ?P).
           fst t < 10 \<and> fst t < length sitemapUrls \<and> fd_path (snd t) = sitemapUrls ! fst t"
  proof
    fix t assume m: "t \<in> set (submittedBy ?P)"
    obtain i f where t: "t = (i, f)" by (cases t)
    have "i < numFiles (websiteSyncEnv senv fetch ?urls)
          \<and> fd_path f = getFilePath (websiteSyncEnv senv fetch ?urls) i"
      using m unfolding t by (rule submitted_paths)
    then show "fst t < 10 \<and> fst t < length sitemapUrls \<and> fd_path (snd t) = sitemapUrls ! fst t"
      by (simp add: websiteSyncEnv_fields t)
  qed
  show ?thesis using c1 c2 c3 c4 c5 by (intro conjI)
qed

lemma sitemap_run:
  "trainSourceWebsite 0 sitemapSite (poolPass twoLinksFetch) ''https://x.com/sitemap.xml'' sitemapWorld
     \<noteq> None"
  by code_simp

theorem sitemap_mode_takes_ten_witness:
  "length fifteenUrls = 15
   \<and> map_option fst (trainSourceWebsite 0 sitemapSite (poolPass twoLinksFetch)
                        ''https://x.com/sitemap.xml'' sitemapWorld)
       = Some [take 10 fifteenUrls]
   \<and> map (\<lambda>t. fd_path (snd t))
        (submittedBy (generateEmbeddings (websiteSyncEnv acceptAll twoLinksFetch (take 10 fifteenUrls))
            False (map Settle [0, 1, 2, 3, 4, 0, 1, 2, 3, 4, 5, 6, 7, 8, 9, 5, 6, 7, 8, 9]) idleStore))
       = take 10 fifteenUrls
   \<and> length (submittedBy (generateEmbeddings
                 (websiteSyncEnv acceptAll twoLinksFetch (take 10 fifteenUrls))
                 False (map Settle [0, 1, 2, 3, 4, 0, 1, 2, 3, 4, 5, 6, 7, 8, 9, 5, 6, 7, 8, 9])
                 idleStore)) \<le> 10"
proof -
  let ?url = "''https://x.com/sitemap.xml''"
  let ?evs = "map Settle [0, 1, 2, 3, 4, 0, 1, 2, 3, 4, 5, 6, 7, 8, 9, 5, 6, 7, 8, 9]"
  have sm: "isSitemapUrl sitemapSite (toNormalizedUrl (w_newURL sitemapSite) ?url False)"
    by code_simp
  have fs: "fetchSitemapUrls sitemapSite (toNormalizedUrl (w_newURL sitemapSite) ?url False)
              = Inr fifteenUrls" by code_simp
  note T = sitemap_mode_takes_ten[OF sm fs, of 0 "poolPass twoLinksFetch" sitemapWorld
      acceptAll twoLinksFetch False ?evs idleStore]
  have n: "length fifteenUrls = 15" by code_simp
  obtain rounds msgs st' where
    r: "trainSourceWebsite 0 sitemapSite (poolPass twoLinksFetch) ?url sitemapWorld
          = Some (rounds, msgs, st')"
    using sitemap_run by (cases "trainSourceWebsite 0 sitemapSite (poolPass twoLinksFetch) ?url
        sitemapWorld") auto
  then have "rounds = [take 10 fifteenUrls]" using T by blast
  then have a: "map_option fst (trainSourceWebsite 0 sitemapSite (poolPass twoLinksFetch) ?url
                                  sitemapWorld) = Some [take 10 fifteenUrls]"
    using r by simp
  have b: "map (\<lambda>t. fd_path (snd t))
        (submittedBy (generateEmbeddings (websiteSyncEnv acceptAll twoLinksFetch (take 10 fifteenUrls))
            False ?evs idleStore)) = take 10 fifteenUrls" by code_simp
  have c: "length (submittedBy (generateEmbeddings
                 (websiteSyncEnv acceptAll twoLinksFetch (take 10 fifteenUrls))
                 False ?evs idleStore)) \<le> 10"
    using T by (elim conjE)
  show ?thesis using n a b c by (intro conjI)
qed

subsection \<open>Link discovery\<close>

text \<open>
  Two pages that link to each other are each handed to one round and fetched once.
\<close>

theorem crawl_cycle_example:
  "map_option fst (trainSourceWebsite 3 cycleSite (poolPass cycleFetch) ''https://x.com'' cycleWorld)
     = Some [[''https://x.com''], [''https://x.com/b'']]
   \<and> map_option (\<lambda>r. fetchedUrls (snd (snd (snd (snd r)))))
        (trainSourceWebsite 3 cycleSite (poolPass cycleFetch) ''https://x.com'' cycleWorld)
       = Some [''https://x.com'', ''https://x.com/b'']"
  by code_simp

text \<open>
  Claim C3, on the input where it fails. The root page of \<open>https://x.com\<close> holds the two
  references \<open>a\<close> and \<open>https://x.com/a\<close>. \<open>uniq\<close> sees two different references, and
  \<open>completeHrefWithBaseUrl\<close> then turns both into \<open>https://x.com/a\<close>: the frontier of the
  second round holds this link twice, and the page is fetched twice. (The loop does
  return for every finite set of links, lemma \<open>crawl_from_root_returns\<close>, and no round
  holds a link of an earlier round, lemma \<open>crawl_fresh\<close>.)
\<close>

theorem crawl_fetches_page_twice:
  "discoverLinks twoLinksSite ''https://x.com'' [''root''] = [''https://x.com/a'', ''https://x.com/a'']
   \<and> map_option fst (trainSourceWebsite 3 twoLinksSite (poolPass twoLinksFetch) ''https://x.com''
                        twoLinksWorld)
       = Some [[''https://x.com''], [''https://x.com/a'', ''https://x.com/a'']]
   \<and> map_option (\<lambda>r. fetchedUrls (snd (snd (snd (snd r)))))
        (trainSourceWebsite 3 twoLinksSite (poolPass twoLinksFetch) ''https://x.com'' twoLinksWorld)
       = Some [''https://x.com'', ''https://x.com/a'', ''https://x.com/a'']"
  by code_simp

end
